theory Spec2Isabelle
  imports Main "HOL-Library.AList" "HOL-Library.Sublist"
begin

section \<open>JavaScript string primitives used by the selector code\<close>

text \<open>
  Strings are lists of code units. A \<^typ>\<open>char\<close> is one code unit in the range 0..255,
  so the model covers the Latin-1 part of a JavaScript string. Within that range the
  white space of \<^verbatim>\<open>String.prototype.trim\<close> and of the regular-expression class
  \<^verbatim>\<open>\s\<close> is the same set: TAB, LF, VT, FF, CR, SPACE and NBSP.
\<close>

definition dq :: char where
  "dq = CHR 0x22"

definition sq :: char where
  "sq = CHR 0x27"

definition bslash :: char where
  "bslash = CHR 0x5C"

definition newline :: char where
  "newline = CHR 0x0A"

definition isWhiteSpace :: "char \<Rightarrow> bool" where
  "isWhiteSpace c \<longleftrightarrow>
     c = CHR 0x09 \<or> c = CHR 0x0A \<or> c = CHR 0x0B \<or> c = CHR 0x0C \<or> c = CHR 0x0D
     \<or> c = CHR 0x20 \<or> c = CHR 0xA0"

text \<open>\<^verbatim>\<open>s.trim()\<close>\<close>

definition trim :: "string \<Rightarrow> string" where
  "trim s = rev (dropWhile isWhiteSpace (rev (dropWhile isWhiteSpace s)))"

text \<open>\<^verbatim>\<open>s.split(d)\<close> for a one-character separator: never the empty array.\<close>

fun split_on :: "char \<Rightarrow> string \<Rightarrow> string list" where
  "split_on d [] = [[]]"
| "split_on d (c # cs) =
     (if c = d then [] # split_on d cs
      else (let r = split_on d cs in (c # hd r) # tl r))"

text \<open>\<^verbatim>\<open>s.split(/\s+/)\<close>: a run of white space is one separator; a leading or
  trailing run leaves an empty first or last piece.\<close>

function split_ws :: "string \<Rightarrow> string list" where
  "split_ws [] = [[]]"
| "split_ws (c # cs) =
     (if isWhiteSpace c then [] # split_ws (dropWhile isWhiteSpace cs)
      else (let r = split_ws cs in (c # hd r) # tl r))"
  by pat_completeness auto
termination
  by (relation "measure length") (auto simp: le_imp_less_Suc length_dropWhile_le)

text \<open>\<^verbatim>\<open>xs.join(sep)\<close>\<close>

fun join :: "string \<Rightarrow> string list \<Rightarrow> string" where
  "join sep [] = []"
| "join sep [x] = x"
| "join sep (x # y # ys) = x @ sep @ join sep (y # ys)"

text \<open>\<^verbatim>\<open>s.includes(c)\<close> for a one-character needle.\<close>

definition str_includes :: "string \<Rightarrow> char \<Rightarrow> bool" where
  "str_includes s c \<longleftrightarrow> c \<in> set s"

text \<open>\<^verbatim>\<open>s.indexOf(c)\<close>: the first position of \<open>c\<close>, or -1.\<close>

fun indexOf :: "string \<Rightarrow> char \<Rightarrow> int" where
  "indexOf [] c = - 1"
| "indexOf (x # xs) c =
     (if x = c then 0
      else (let i = indexOf xs c in if i < 0 then - 1 else i + 1))"

text \<open>\<^verbatim>\<open>s.substring(a, b)\<close>: both indices are clamped to \<open>0..length\<close> and swapped
  when the first exceeds the second.\<close>

definition substring :: "string \<Rightarrow> int \<Rightarrow> int \<Rightarrow> string" where
  "substring s a b =
     (let n = int (length s);
          a' = max 0 (min a n);
          b' = max 0 (min b n);
          lo = min a' b';
          hi = max a' b'
      in take (nat (hi - lo)) (drop (nat lo) s))"

text \<open>\<^verbatim>\<open>s.substring(a)\<close>\<close>

definition substring_from :: "string \<Rightarrow> int \<Rightarrow> string" where
  "substring_from s a = substring s a (int (length s))"

definition startsWith :: "string \<Rightarrow> char \<Rightarrow> bool" where
  "startsWith s c \<longleftrightarrow> (case s of [] \<Rightarrow> False | x # _ \<Rightarrow> x = c)"

definition endsWith :: "string \<Rightarrow> char \<Rightarrow> bool" where
  "endsWith s c \<longleftrightarrow> (case rev s of [] \<Rightarrow> False | x # _ \<Rightarrow> x = c)"

text \<open>\<^verbatim>\<open>s.toLowerCase()\<close> on code units 0..255: A-Z and the Latin-1 capitals
  (0xC0..0xDE without the multiplication sign 0xD7) move up by 32.\<close>

definition lower_char :: "char \<Rightarrow> char" where
  "lower_char c =
     (let n = (of_char c :: nat)
      in if (65 \<le> n \<and> n \<le> 90) \<or> (192 \<le> n \<and> n \<le> 222 \<and> n \<noteq> 215)
         then char_of (n + 32) else c)"

definition toLowerCase :: "string \<Rightarrow> string" where
  "toLowerCase s = map lower_char s"

text \<open>\<^verbatim>\<open>s.replace(/"/g, '\\"')\<close>: a backslash goes in front of every double quote.\<close>

definition escape_dq :: "string \<Rightarrow> string" where
  "escape_dq s = concat (map (\<lambda>c. if c = dq then [bslash, dq] else [c]) s)"

text \<open>\<^verbatim>\<open>s.replace(/\s/g, '#')\<close>\<close>

definition ws_to_hash :: "string \<Rightarrow> string" where
  "ws_to_hash s = map (\<lambda>c. if isWhiteSpace c then CHR ''#'' else c) s"

section \<open>Selector synthesis in the code generator: \<^verbatim>\<open>convertToCssSelector\<close>\<close>

text \<open>The quote test of the generator: the value starts and ends with the same quote
  character; then \<^verbatim>\<open>value.substring(1, value.length - 1)\<close>.\<close>

definition strip_quotes :: "string \<Rightarrow> string" where
  "strip_quotes v =
     (if (startsWith v dq \<and> endsWith v dq) \<or> (startsWith v sq \<and> endsWith v sq)
      then substring v 1 (int (length v) - 1)
      else v)"

text \<open>The three ways a constraint extends the selector, after the guard
  \<^verbatim>\<open>if (key && value)\<close>. The id branch is a parameter: it is the one place
  where the two synthesis functions are written differently.\<close>

definition append_filter :: "(string \<Rightarrow> string) \<Rightarrow> string \<Rightarrow> string \<Rightarrow> string \<Rightarrow> string" where
  "append_filter idtok selector key v =
     (if key \<noteq> [] \<and> v \<noteq> [] then
        (if toLowerCase key = ''id'' then selector @ ''#'' @ idtok v
         else if toLowerCase key = ''class'' then
           (let classes = join ''.'' (filter (\<lambda>t. t \<noteq> []) (split_ws v))
            in if classes \<noteq> [] then selector @ ''.'' @ classes else selector)
         else selector @ ''['' @ key @ ''='' @ [dq] @ escape_dq v @ [dq] @ '']'')
      else selector)"

text \<open>\<^verbatim>\<open>value.split(/\s+/)[0]\<close> inside a template literal: index 0 of an empty
  array would print as \<^verbatim>\<open>undefined\<close>.\<close>

definition first_token :: "string \<Rightarrow> string" where
  "first_token v = (case split_ws v of [] \<Rightarrow> ''undefined'' | x # _ \<Rightarrow> x)"

text \<open>One iteration of the generator's loop over \<open>parts\<close>.\<close>

definition css_step :: "string \<Rightarrow> string \<Rightarrow> string" where
  "css_step selector part =
     (let eqIndex = indexOf part (CHR ''='');
          key = trim (substring part 0 eqIndex);
          v = strip_quotes (trim (substring_from part (eqIndex + 1)))
      in append_filter first_token selector key v)"

definition convertToCssSelector :: "string \<Rightarrow> string \<Rightarrow> string" where
  "convertToCssSelector tag attrs =
     (if trim tag = [] then []
      else if trim attrs = [] then trim tag
      else foldl css_step (trim tag)
             (filter (\<lambda>p. str_includes p (CHR ''='')) (map trim (split_on (CHR '','') attrs))))"

section \<open>Selector synthesis in the interactive test: \<^verbatim>\<open>convertToSelector\<close>\<close>

text \<open>One iteration of the loop in \<^verbatim>\<open>App.tsx\<close>: a part without \<open>=\<close> is skipped by
  \<^verbatim>\<open>continue\<close>; the value is used as trimmed.\<close>

definition sel_step :: "string \<Rightarrow> string \<Rightarrow> string" where
  "sel_step selector part =
     (let eqIndex = indexOf part (CHR ''='')
      in if eqIndex = - 1 then selector
         else (let key = trim (substring part 0 eqIndex);
                   v = trim (substring_from part (eqIndex + 1))
               in append_filter ws_to_hash selector key v))"

definition convertToSelector :: "string \<Rightarrow> string \<Rightarrow> string" where
  "convertToSelector t a =
     (if trim a = [] then trim t
      else foldl sel_step (trim t)
             (filter (\<lambda>p. p \<noteq> []) (map trim (split_on (CHR '','') a))))"

section \<open>The attribute clause as a list of constraints\<close>

text \<open>The source parses the clause inside the synthesis loops. The constraints a loop
  acts on are those that pass its guard \<^verbatim>\<open>if (key && value)\<close>; they are collected here,
  per synthesis function, with the same steps as \<open>css_step\<close> and \<open>sel_step\<close>.\<close>

definition css_constraint :: "string \<Rightarrow> (string \<times> string) list" where
  "css_constraint part =
     (let eqIndex = indexOf part (CHR ''='');
          key = trim (substring part 0 eqIndex);
          v = strip_quotes (trim (substring_from part (eqIndex + 1)))
      in if key \<noteq> [] \<and> v \<noteq> [] then [(key, v)] else [])"

definition parse_css :: "string \<Rightarrow> (string \<times> string) list" where
  "parse_css attrs =
     concat (map css_constraint
       (filter (\<lambda>p. str_includes p (CHR ''='')) (map trim (split_on (CHR '','') attrs))))"

definition sel_constraint :: "string \<Rightarrow> (string \<times> string) list" where
  "sel_constraint part =
     (let eqIndex = indexOf part (CHR ''='')
      in if eqIndex = - 1 then []
         else (let key = trim (substring part 0 eqIndex);
                   v = trim (substring_from part (eqIndex + 1))
               in if key \<noteq> [] \<and> v \<noteq> [] then [(key, v)] else []))"

definition parse_sel :: "string \<Rightarrow> (string \<times> string) list" where
  "parse_sel a =
     concat (map sel_constraint (filter (\<lambda>p. p \<noteq> []) (map trim (split_on (CHR '','') a))))"

definition add_constraint :: "(string \<Rightarrow> string) \<Rightarrow> string \<Rightarrow> string \<times> string \<Rightarrow> string" where
  "add_constraint idtok selector kv = append_filter idtok selector (fst kv) (snd kv)"

text \<open>The text one constraint contributes to a selector: what the step appends to the
  empty selector.\<close>

definition filter_text :: "(string \<Rightarrow> string) \<Rightarrow> string \<times> string \<Rightarrow> string" where
  "filter_text idtok kv = add_constraint idtok [] kv"

section \<open>The interactive test: \<^verbatim>\<open>handleTest\<close> in \<^verbatim>\<open>App.tsx\<close>\<close>

text \<open>
  The document in the preview frame belongs to the browser, not to the program. It is
  taken as a parameter: a record of the three things \<^verbatim>\<open>handleTest\<close> asks of it.
  A query with a selector the browser cannot parse raises a \<^verbatim>\<open>SyntaxError\<close>; a read
  of \<^verbatim>\<open>textContent\<close> may give \<^verbatim>\<open>null\<close>.
\<close>

datatype dom_error = SyntaxError

record 'e document =
  querySelectorAll :: "string \<Rightarrow> dom_error + 'e list"
  querySelector :: "'e \<Rightarrow> string \<Rightarrow> dom_error + 'e option"
  textContent :: "'e \<Rightarrow> string option"

text \<open>Every call of a query function is recorded, in order, so that a claim about which
  queries are attempted can be stated.\<close>

datatype 'e query = DocumentQuery string | ElementQuery 'e string

datatype test_type = Container | Extractor

datatype scraping_mode = Structured | Simple

record descriptor =
  tag :: string
  attrs :: string

record test_result =
  count :: nat
  preview :: string
  error :: bool

text \<open>The part of the component state that \<^verbatim>\<open>handleTest\<close> reads (\<open>scrapingMode\<close>,
  \<open>container\<close>) and writes (the three others). \<open>testResults\<close> is keyed by extractor id.\<close>

record app_state =
  scrapingMode :: scraping_mode
  container :: descriptor
  containerTestResult :: "test_result option"
  isContainerSet :: bool
  testResults :: "int \<Rightarrow> test_result option"

text \<open>A number inside a template literal: its decimal digits.\<close>

definition digit_char :: "nat \<Rightarrow> char" where
  "digit_char d = char_of (48 + d)"

fun show_nat :: "nat \<Rightarrow> string" where
  "show_nat n = (if n < 10 then [digit_char n] else show_nat (n div 10) @ [digit_char (n mod 10)])"

declare show_nat.simps [simp del]

text \<open>The two places that store a failure (the guard at the top and the \<^verbatim>\<open>catch\<close>) do
  the same: a container result also clears \<open>isContainerSet\<close>; an extractor result goes
  under its id.\<close>

definition store_failure :: "test_type \<Rightarrow> int \<Rightarrow> test_result \<Rightarrow> app_state \<Rightarrow> app_state" where
  "store_failure ty i r st =
     (case ty of
        Container \<Rightarrow> st\<lparr>containerTestResult := Some r, isContainerSet := False\<rparr>
      | Extractor \<Rightarrow> st\<lparr>testResults := (testResults st)(i \<mapsto> r)\<rparr>)"

definition empty_tag_result :: test_result where
  "empty_tag_result = \<lparr>count = 0, preview = ''HTML Tag is empty.'', error = True\<rparr>"

definition invalid_result :: test_result where
  "invalid_result =
     \<lparr>count = 0, preview = ''Invalid Tag or Attributes for testing.'', error = True\<rparr>"

text \<open>\<^verbatim>\<open>Array.from(containers).filter(c => c.querySelector(selector))\<close>: containers are
  visited in order; the first query that raises ends the visit.\<close>

fun matchesInContainers ::
  "'e document \<Rightarrow> string \<Rightarrow> 'e list \<Rightarrow> 'e query list \<times> (dom_error + 'e list)" where
  "matchesInContainers doc selector [] = ([], Inr [])"
| "matchesInContainers doc selector (c # cs) =
     (case querySelector doc c selector of
        Inl e \<Rightarrow> ([ElementQuery c selector], Inl e)
      | Inr m \<Rightarrow>
          (case matchesInContainers doc selector cs of
             (qs, Inl e) \<Rightarrow> (ElementQuery c selector # qs, Inl e)
           | (qs, Inr keep) \<Rightarrow>
               (ElementQuery c selector # qs, Inr (if m \<noteq> None then c # keep else keep))))"

text \<open>The preview text of one match in simple mode:
  \<^verbatim>\<open>(el.textContent || '').trim().slice(0, 20).concat('...')\<close>.\<close>

definition match_preview :: "'e document \<Rightarrow> 'e \<Rightarrow> string" where
  "match_preview doc el =
     take 20 (trim (case textContent doc el of None \<Rightarrow> [] | Some t \<Rightarrow> t)) @ ''...''"

text \<open>The body of the \<^verbatim>\<open>try\<close> block: the queries it issued, and either the error
  raised or the state after the result is stored.\<close>

definition test_body ::
  "'e document \<Rightarrow> test_type \<Rightarrow> int \<Rightarrow> string \<Rightarrow> app_state
     \<Rightarrow> 'e query list \<times> (dom_error + app_state)" where
  "test_body doc ty i selector st =
     (case ty of
        Container \<Rightarrow>
          (case querySelectorAll doc selector of
             Inl e \<Rightarrow> ([DocumentQuery selector], Inl e)
           | Inr matches \<Rightarrow>
               (let n = length matches;
                    isSuccess = (n > 0);
                    pv = ''Found '' @ show_nat n @ '' repeating container elements.''
                in ([DocumentQuery selector],
                    Inr (st\<lparr>containerTestResult :=
                              Some \<lparr>count = n, preview = pv, error = \<not> isSuccess\<rparr>,
                            isContainerSet := isSuccess\<rparr>))))
      | Extractor \<Rightarrow>
          (if scrapingMode st = Structured \<and> tag (container st) \<noteq> [] then
             (let containerSelector =
                    convertToSelector (tag (container st)) (attrs (container st))
              in case querySelectorAll doc containerSelector of
                   Inl e \<Rightarrow> ([DocumentQuery containerSelector], Inl e)
                 | Inr containers \<Rightarrow>
                     (if length containers > 0 then
                        (case matchesInContainers doc selector containers of
                           (qs, Inl e) \<Rightarrow> (DocumentQuery containerSelector # qs, Inl e)
                         | (qs, Inr found) \<Rightarrow>
                             (let n = length found;
                                  pv = show_nat n @ '' of '' @ show_nat (length containers)
                                         @ '' containers have a match.''
                              in (DocumentQuery containerSelector # qs,
                                  Inr (st\<lparr>testResults := (testResults st)
                                         (i \<mapsto> \<lparr>count = n, preview = pv, error = (n = 0)\<rparr>)\<rparr>))))
                      else
                        ([DocumentQuery containerSelector],
                         Inr (st\<lparr>testResults := (testResults st)
                                (i \<mapsto> \<lparr>count = 0,
                                        preview = ''No containers found to test within.'',
                                        error = True\<rparr>)\<rparr>))))
           else
             (case querySelectorAll doc selector of
                Inl e \<Rightarrow> ([DocumentQuery selector], Inl e)
              | Inr matches \<Rightarrow>
                  (let n = length matches;
                       pv = ''Found '' @ show_nat n @ '' total matches. Preview: ''
                              @ join '' | '' (map (match_preview doc) (take 3 matches));
                       shown = (if pv \<noteq> [] then pv
                                else ''Found '' @ show_nat n @ '' matches. (No text content)'')
                   in ([DocumentQuery selector],
                       Inr (st\<lparr>testResults := (testResults st)
                              (i \<mapsto> \<lparr>count = n, preview = shown, error = (n = 0)\<rparr>)\<rparr>))))))"

text \<open>\<^verbatim>\<open>handleTest(type, id, tag, attrs)\<close>. \<open>iframeDoc\<close> is \<open>None\<close> while no document is
  loaded. The result is the list of queries issued and the new state.\<close>

definition handleTest ::
  "'e document option \<Rightarrow> test_type \<Rightarrow> int \<Rightarrow> string \<Rightarrow> string \<Rightarrow> app_state
     \<Rightarrow> 'e query list \<times> app_state" where
  "handleTest iframeDoc ty i tg at st =
     (case iframeDoc of
        None \<Rightarrow> ([], store_failure ty i empty_tag_result st)
      | Some doc \<Rightarrow>
          (if trim tg = [] then ([], store_failure ty i empty_tag_result st)
           else
             (let selector = convertToSelector tg at
              in case test_body doc ty i selector st of
                   (qs, Inr st') \<Rightarrow> (qs, st')
                 | (qs, Inl e) \<Rightarrow> (qs, store_failure ty i invalid_result st))))"

text \<open>Whether a container has a match for the selector below it.\<close>

definition contains_match :: "'e document \<Rightarrow> string \<Rightarrow> 'e \<Rightarrow> bool" where
  "contains_match doc selector c =
     (case querySelector doc c selector of Inr (Some m) \<Rightarrow> True | _ \<Rightarrow> False)"

text \<open>
  An example document, from the end-to-end scenario of the specification: three
  \<^verbatim>\<open>div.card\<close> elements (numbered 1, 2, 3), of which the second lacks the inner
  \<^verbatim>\<open>span.t\<close>; the spans are numbered 11 and 13. Any selector with a space in an
  attribute name is refused, as a browser refuses it.
\<close>

definition scenario_doc :: "nat document" where
  "scenario_doc =
     \<lparr>querySelectorAll = (\<lambda>s. if CHR '' '' \<in> set s then Inl SyntaxError
                               else if s = ''div.card'' then Inr [1, 2, 3]
                               else if s = ''span.t'' then Inr [11, 13]
                               else Inr []),
      querySelector = (\<lambda>e s. if CHR '' '' \<in> set s then Inl SyntaxError
                              else if s = ''span.t'' \<and> (e = 1 \<or> e = 3) then Inr (Some (e + 10))
                              else Inr None),
      textContent = (\<lambda>e. if e = 11 \<or> e = 13 then Some ''A'' else Some [])\<rparr>"

definition scenario_state :: app_state where
  "scenario_state =
     \<lparr>scrapingMode = Structured,
      container = \<lparr>tag = ''div'', attrs = ''class=card''\<rparr>,
      containerTestResult = None,
      isContainerSet = True,
      testResults = Map.empty\<rparr>"

section \<open>The code generator: \<^verbatim>\<open>generateBeautifulSoupCode\<close>\<close>

text \<open>
  The emitted program is text. Each template of the source is the list of its lines,
  joined by the newline character; a template that begins or ends with a newline has an
  empty first or last line. The backslash and a quote next to another quote are written
  as characters (\<open>bslash\<close>, \<open>sq\<close>).
\<close>

datatype output_format = Csv | Json | Print

record extractor = descriptor +
  ident :: int
  name :: string

record params =
  scrapingMode_p :: scraping_mode
  container_p :: descriptor
  extractors_p :: "extractor list"
  fileName :: string
  outputFormat :: output_format

text \<open>The two lines emitted for one extractor inside the container loop. The selector
  has its double quotes escaped; the name is inserted as it is.\<close>

definition field_lines :: "extractor \<Rightarrow> string" where
  \<open>field_lines e =
     (let fieldSelector = escape_dq (convertToCssSelector (tag e) (attrs e))
      in join [newline]
           [''    field_element = container.select_one("'' @ fieldSelector @ ''")'',
            ''    item['' @ [sq] @ name e @ [sq] @ ''] = field_element.get_text(strip=True) if field_element else None''])\<close>

definition extractionLoop :: "descriptor \<Rightarrow> extractor list \<Rightarrow> string" where
  \<open>extractionLoop cont extractors =
     (let containerSelector = escape_dq (convertToCssSelector (tag cont) (attrs cont))
      in join [newline]
          [[],
           ''# Find all the container elements'',
           ''container_selector = "'' @ containerSelector @ ''"'',
           ''containers = soup.select(container_selector)'',
           ''print(f"Found {len(containers)} containers.")'',
           [],
           ''# --- Extract data from each container ---'',
           ''all_items = []'',
           ''for container in containers:'',
           ''    item = {}'',
           join [newline] (map field_lines extractors),
           ''    all_items.append(item)'',
           []])\<close>

definition generateContainerBasedScript ::
  "descriptor \<Rightarrow> extractor list \<Rightarrow> output_format \<Rightarrow> string" where
  \<open>generateContainerBasedScript cont extractors fmt =
     (case fmt of
        Csv \<Rightarrow>
          join [newline]
            [[],
             extractionLoop cont extractors,
             [],
             ''# --- Save data to CSV ---'',
             ''if all_items:'',
             ''    csv_file_name = "output.csv"'',
             ''    print(f"'' @ [bslash] @ ''nSaving data to {csv_file_name}...")'',
             ''    try:'',
             ''        with open(csv_file_name, 'w', newline='' @ [sq, sq] @ '', encoding='utf-8') as csvfile:'',
             ''            writer = csv.DictWriter(csvfile, fieldnames=all_items[0].keys())'',
             ''            writer.writeheader()'',
             ''            writer.writerows(all_items)'',
             ''        print("Data successfully saved to CSV.")'',
             ''    except Exception as e:'',
             ''        print(f"Error saving to CSV: {e}")'',
             ''else:'',
             ''    print("'' @ [bslash] @ ''nNo data extracted to save.")'',
             []]
      | Json \<Rightarrow>
          join [newline]
            [[],
             extractionLoop cont extractors,
             [],
             ''# --- Save data to JSON ---'',
             ''if all_items:'',
             ''    json_file_name = "output.json"'',
             ''    print(f"'' @ [bslash] @ ''nSaving data to {json_file_name}...")'',
             ''    try:'',
             ''        with open(json_file_name, 'w', encoding='utf-8') as jsonfile:'',
             ''            json.dump(all_items, jsonfile, indent=4)'',
             ''        print("Data successfully saved to JSON.")'',
             ''    except Exception as e:'',
             ''        print(f"Error saving to JSON: {e}")'',
             ''else:'',
             ''    print("'' @ [bslash] @ ''nNo data extracted to save.")'',
             []]
      | Print \<Rightarrow>
          join [newline]
            [[],
             extractionLoop cont extractors,
             [],
             ''# --- Print Extracted Data ---'',
             ''print("'' @ [bslash] @ ''n--- Extracted Data ---")'',
             ''for item in all_items:'',
             ''    print(item)'',
             []])\<close>

definition extractionLogic :: "extractor \<Rightarrow> string" where
  \<open>extractionLogic extractor =
     (let selector = escape_dq (convertToCssSelector (tag extractor) (attrs extractor))
      in join [newline]
          [[],
           ''# Find all matching elements on the page'',
           ''selector = "'' @ selector @ ''"'',
           ''elements = soup.select(selector)'',
           ''print(f"Found {len(elements)} matching elements.")'',
           [],
           ''# Extract the text content from each element'',
           ''extracted_data = [el.get_text(strip=True) for el in elements]'',
           []])\<close>

definition generateSimpleListScript :: "extractor \<Rightarrow> output_format \<Rightarrow> string" where
  \<open>generateSimpleListScript extractor fmt =
     (case fmt of
        Csv \<Rightarrow>
          join [newline]
            [[],
             extractionLogic extractor,
             [],
             ''# --- Save data to CSV ---'',
             ''if extracted_data:'',
             ''    csv_file_name = "output.csv"'',
             ''    print(f"'' @ [bslash] @ ''nSaving data to {csv_file_name}...")'',
             ''    try:'',
             ''        with open(csv_file_name, 'w', newline='' @ [sq, sq] @ '', encoding='utf-8') as csvfile:'',
             ''            writer = csv.writer(csvfile)'',
             ''            writer.writerow(['' @ [sq] @ name extractor @ [sq] @ ''])  # Header'',
             ''            for item in extracted_data:'',
             ''                writer.writerow([item])'',
             ''        print("Data successfully saved to CSV.")'',
             ''    except Exception as e:'',
             ''        print(f"Error saving to CSV: {e}")'',
             ''else:'',
             ''    print("'' @ [bslash] @ ''nNo data extracted to save.")'',
             []]
      | Json \<Rightarrow>
          join [newline]
            [[],
             extractionLogic extractor,
             [],
             ''# --- Save data to JSON ---'',
             ''if extracted_data:'',
             ''    json_file_name = "output.json"'',
             ''    print(f"'' @ [bslash] @ ''nSaving data to {json_file_name}...")'',
             ''    try:'',
             ''        # Saving as a list of strings under a single key'',
             ''        output_json = {'' @ [sq] @ name extractor @ [sq] @ '': extracted_data}'',
             ''        with open(json_file_name, 'w', encoding='utf-8') as jsonfile:'',
             ''            json.dump(output_json, jsonfile, indent=4)'',
             ''        print("Data successfully saved to JSON.")'',
             ''    except Exception as e:'',
             ''        print(f"Error saving to JSON: {e}")'',
             ''else:'',
             ''    print("'' @ [bslash] @ ''nNo data extracted to save.")'',
             []]
      | Print \<Rightarrow>
          join [newline]
            [[],
             extractionLogic extractor,
             [],
             ''# --- Print Extracted Data ---'',
             ''print("'' @ [bslash] @ ''n--- Extracted Data ---")'',
             ''for item in extracted_data:'',
             ''    print(item)'',
             []])\<close>

text \<open>The import lines: a set in insertion order.\<close>

definition import_lines :: "output_format \<Rightarrow> string list" where
  "import_lines fmt =
     [''from bs4 import BeautifulSoup'']
       @ (if fmt = Csv then [''import csv''] else [])
       @ (if fmt = Json then [''import json''] else [])"

definition placeholder :: string where
  \<open>placeholder =
     join [newline]
       [''# Please complete the definitions in Step 4 to generate the script.'',
        ''# - For Structured Data, define a container and at least one field.'',
        ''# - For a Simple List, define the single field you want to extract.'']\<close>

text \<open>The guard of \<^verbatim>\<open>generateBeautifulSoupCode\<close> tests the tags as they are (not
  trimmed); \<^verbatim>\<open>extractors[0]?.tag\<close> of an empty list is undefined, hence falsy. In
  simple mode the guard has therefore returned when the list is empty: where the script
  is built, \<^verbatim>\<open>extractors[0]\<close> exists, and the branch for the empty list below is never
  taken.\<close>

definition incomplete :: "params \<Rightarrow> bool" where
  "incomplete p \<longleftrightarrow>
     (scrapingMode_p p = Structured \<and> (tag (container_p p) = [] \<or> extractors_p p = []))
     \<or> (scrapingMode_p p = Simple
         \<and> (case extractors_p p of [] \<Rightarrow> True | e # _ \<Rightarrow> tag e = []))"

definition generateBeautifulSoupCode :: "params \<Rightarrow> string" where
  \<open>generateBeautifulSoupCode p =
     (let sanitizedFileName = escape_dq (fileName p)
      in if incomplete p then placeholder
         else
           (let mainScript =
                  (if scrapingMode_p p = Structured
                   then generateContainerBasedScript (container_p p) (extractors_p p) (outputFormat p)
                   else (case extractors_p p of
                           [] \<Rightarrow> placeholder
                         | e # _ \<Rightarrow> generateSimpleListScript e (outputFormat p)))
            in join [newline]
               [join [newline] (import_lines (outputFormat p)),
                [],
                ''# --- Setup Instructions ---'',
                ''# 1. Make sure you have Python installed.'',
                ''# 2. Install required libraries:'',
                ''#    pip install beautifulsoup4'',
                [],
                ''# --- Script ---'',
                ''file_name = "'' @ sanitizedFileName @ ''"'',
                [],
                ''try:'',
                ''    with open(file_name, "r", encoding="utf-8") as f:'',
                ''        html_content = f.read()'',
                ''except FileNotFoundError:'',
                ''    print(f"Error: The file '{file_name}' was not found.")'',
                ''    print("Please make sure it's in the same directory as this Python script.")'',
                ''    exit()'',
                [],
                ''soup = BeautifulSoup(html_content, "html.parser")'',
                mainScript,
                []]))\<close>

text \<open>The name field of the page sanitises what is typed before it reaches the
  extractor: \<^verbatim>\<open>e.target.value.replace(/[^a-zA-Z0-9_]/g, '_')\<close>.\<close>

definition word_char :: "char \<Rightarrow> bool" where
  "word_char c \<longleftrightarrow>
     (let n = (of_char c :: nat)
      in (97 \<le> n \<and> n \<le> 122) \<or> (65 \<le> n \<and> n \<le> 90) \<or> (48 \<le> n \<and> n \<le> 57) \<or> n = 95)"

definition sanitize_name :: "string \<Rightarrow> string" where
  "sanitize_name s = map (\<lambda>c. if word_char c then c else CHR ''_'') s"

text \<open>
  The quoting convention of the emitted language, from Python's lexical grammar of a
  short string literal: between the delimiters \<open>q\<close> stands a sequence of items, each
  either a backslash followed by any character, or one character that is neither a
  backslash, nor a newline, nor the delimiter. A body that fails this test ends the
  literal early or leaves it open.
\<close>

fun literal_body_ok :: "char \<Rightarrow> string \<Rightarrow> bool" where
  "literal_body_ok q [] = True"
| "literal_body_ok q [c] = (c \<noteq> q \<and> c \<noteq> bslash \<and> c \<noteq> newline)"
| "literal_body_ok q (c # d # cs) =
     (if c = bslash then literal_body_ok q cs
      else c \<noteq> q \<and> c \<noteq> newline \<and> literal_body_ok q (d # cs))"

text \<open>A parameter set for an uploaded file whose name contains a backslash followed by
  a double quote (\<^verbatim>\<open>a\"b.html\<close>); the name of the uploaded file is taken as it is
  (\<^verbatim>\<open>setFileName(file.name)\<close>).\<close>

definition backslash_params :: params where
  "backslash_params =
     \<lparr>scrapingMode_p = Structured,
      container_p = \<lparr>tag = ''div'', attrs = ''class=card''\<rparr>,
      extractors_p = [\<lparr>tag = ''span'', attrs = ''class=t'', ident = 1, name = ''t''\<rparr>],
      fileName = ''a'' @ [bslash, dq] @ ''b.html'',
      outputFormat = Csv\<rparr>"

text \<open>The parameters of the specification's end-to-end scenario: container
  \<^verbatim>\<open>div\<close> with \<^verbatim>\<open>class=card\<close>, one field \<^verbatim>\<open>t\<close> on \<^verbatim>\<open>span\<close> with
  \<^verbatim>\<open>class=t\<close>, tabular output.\<close>

definition scenario_params :: params where
  "scenario_params =
     \<lparr>scrapingMode_p = Structured,
      container_p = \<lparr>tag = ''div'', attrs = ''class=card''\<rparr>,
      extractors_p = [\<lparr>tag = ''span'', attrs = ''class=t'', ident = 1, name = ''t''\<rparr>],
      fileName = ''page.html'',
      outputFormat = Csv\<rparr>"

section \<open>The emitted structured-mode program, read and run\<close>

text \<open>
  What \<open>generateContainerBasedScript\<close> returns is Python text: the part of the emitted
  program that follows \<^verbatim>\<open>soup = BeautifulSoup(html_content, "html.parser")\<close>
  (lemma \<open>mainScript_embedded\<close> below), run with \<open>soup\<close> bound to the parsed document. Its
  meaning is given here in two steps that do not depend on the generator: a reader that
  turns program text into statements, for the statements the emitted programs are made
  of, and an interpreter of these statements. A text the reader does not recognise has
  no meaning in this model (\<open>None\<close>). BeautifulSoup is a parameter: what \<open>select\<close> and
  \<open>select_one\<close> answer, or that they raise (as they do for a selector they cannot
  parse), and the text of an element.
\<close>

datatype py_error = NameError | SelectorSyntaxError | ValueError

record 'e soup =
  select :: "string \<Rightarrow> py_error + 'e list"
  select_one :: "'e \<Rightarrow> string \<Rightarrow> py_error + 'e option"
  get_text :: "'e \<Rightarrow> string"

text \<open>A Python dictionary keeps its keys in insertion order, and an assignment to a key
  that is present replaces the value in place: an association list with
  \<^const>\<open>AList.update\<close>. A value \<open>None\<close> is Python's \<^verbatim>\<open>None\<close>.\<close>

type_synonym item = "(string \<times> string option) list"

subsection \<open>Statements\<close>

text \<open>
  The statements of the loop body, each one line of the program:
  \<^verbatim>\<open>item = {}\<close>,
  \<^verbatim>\<open>field_element = container.select_one("...")\<close>,
  \<^verbatim>\<open>item['...'] = field_element.get_text(strip=True) if field_element else None\<close>,
  \<^verbatim>\<open>all_items.append(item)\<close>.
\<close>

datatype body_stmt = NewItem | SelectField string | SetField string | AppendItem

text \<open>
  The statements at the top level:
  \<^verbatim>\<open>container_selector = "..."\<close>,
  \<^verbatim>\<open>containers = soup.select(container_selector)\<close>,
  \<^verbatim>\<open>all_items = []\<close>,
  \<^verbatim>\<open>for container in containers:\<close> with its indented body, and the three ways the
  records are put out: the \<^verbatim>\<open>if all_items:\<close> block that writes the CSV file, the one
  that writes the JSON file, and \<^verbatim>\<open>for item in all_items: print(item)\<close>.
\<close>

datatype stmt =
    SetContainerSelector string
  | SelectContainers
  | InitItems
  | ForContainers "body_stmt list"
  | SaveCsv
  | SaveJson
  | PrintItems

subsection \<open>Reading program text\<close>

fun strip_prefix :: "'a list \<Rightarrow> 'a list \<Rightarrow> 'a list option" where
  "strip_prefix [] s = Some s"
| "strip_prefix (p # ps) [] = None"
| "strip_prefix (p # ps) (c # cs) = (if p = c then strip_prefix ps cs else None)"

text \<open>
  A short string literal, read from behind its opening quote \<open>q\<close>: the value and the
  text after the closing quote. A backslash followed by a backslash or a quote stands
  for that character; the other escape sequences are not read (\<open>None\<close>), nor is a
  literal broken by a line end or a NUL.
\<close>

fun read_literal :: "char \<Rightarrow> string \<Rightarrow> (string \<times> string) option" where
  "read_literal q [] = None"
| "read_literal q [c] = (if c = q then Some ([], []) else None)"
| "read_literal q (c # d # cs) =
     (if c = q then Some ([], d # cs)
      else if c = bslash then
        (if d = bslash \<or> d = dq \<or> d = sq
         then (case read_literal q cs of None \<Rightarrow> None | Some (v, r) \<Rightarrow> Some (d # v, r))
         else None)
      else if c = newline \<or> c = CHR 0x0D \<or> c = CHR 0x00 then None
      else (case read_literal q (d # cs) of None \<Rightarrow> None | Some (v, r) \<Rightarrow> Some (c # v, r)))"

text \<open>One line of the loop body, without its indentation.\<close>

definition read_body_line :: "string \<Rightarrow> body_stmt option" where
  \<open>read_body_line l =
     (if l = ''item = {}'' then Some NewItem
      else if l = ''all_items.append(item)'' then Some AppendItem
      else
        (case strip_prefix ''field_element = container.select_one("'' l of
           Some t \<Rightarrow>
             (case read_literal dq t of
                None \<Rightarrow> None
              | Some (v, r) \<Rightarrow> if r = '')'' then Some (SelectField v) else None)
         | None \<Rightarrow>
             (case strip_prefix (''item['' @ [sq]) l of
                None \<Rightarrow> None
              | Some t \<Rightarrow>
                  (case read_literal sq t of
                     None \<Rightarrow> None
                   | Some (k, r) \<Rightarrow>
                       if r = ''] = field_element.get_text(strip=True) if field_element else None''
                       then Some (SetField k) else None))))\<close>

text \<open>The lines of a block: indented by four blanks; empty lines do not count.\<close>

definition in_block :: "string \<Rightarrow> bool" where
  "in_block l \<longleftrightarrow> l = [] \<or> strip_prefix ''    '' l \<noteq> None"

fun read_body :: "string list \<Rightarrow> body_stmt list option" where
  "read_body [] = Some []"
| "read_body (l # ls) =
     (if l = [] then read_body ls
      else
        (case strip_prefix ''    '' l of
           None \<Rightarrow> None
         | Some t \<Rightarrow>
             (case read_body_line t of
                None \<Rightarrow> None
              | Some s \<Rightarrow> (case read_body ls of None \<Rightarrow> None | Some ss \<Rightarrow> Some (s # ss)))))"

text \<open>Lines without effect on the variables of the program: empty lines, comments, and
  the \<^verbatim>\<open>print(...)\<close> calls, which only write to the console.\<close>

definition skippable :: "string \<Rightarrow> bool" where
  "skippable l \<longleftrightarrow>
     l = [] \<or> strip_prefix ''#'' l \<noteq> None \<or> strip_prefix ''print('' l \<noteq> None"

text \<open>The lines below \<^verbatim>\<open>if all_items:\<close> in the two programs that write a file.\<close>

definition csv_block :: "string list" where
  \<open>csv_block =
     [''    csv_file_name = "output.csv"'',
      ''    print(f"'' @ [bslash] @ ''nSaving data to {csv_file_name}...")'',
      ''    try:'',
      ''        with open(csv_file_name, 'w', newline='' @ [sq, sq] @ '', encoding='utf-8') as csvfile:'',
      ''            writer = csv.DictWriter(csvfile, fieldnames=all_items[0].keys())'',
      ''            writer.writeheader()'',
      ''            writer.writerows(all_items)'',
      ''        print("Data successfully saved to CSV.")'',
      ''    except Exception as e:'',
      ''        print(f"Error saving to CSV: {e}")'',
      ''else:'',
      ''    print("'' @ [bslash] @ ''nNo data extracted to save.")'']\<close>

definition json_block :: "string list" where
  \<open>json_block =
     [''    json_file_name = "output.json"'',
      ''    print(f"'' @ [bslash] @ ''nSaving data to {json_file_name}...")'',
      ''    try:'',
      ''        with open(json_file_name, 'w', encoding='utf-8') as jsonfile:'',
      ''            json.dump(all_items, jsonfile, indent=4)'',
      ''        print("Data successfully saved to JSON.")'',
      ''    except Exception as e:'',
      ''        print(f"Error saving to JSON: {e}")'',
      ''else:'',
      ''    print("'' @ [bslash] @ ''nNo data extracted to save.")'']\<close>

definition has_prefix :: "'a list \<Rightarrow> 'a list \<Rightarrow> bool" where
  "has_prefix p s \<longleftrightarrow> take (length p) s = p"

function read_lines :: "string list \<Rightarrow> stmt list option" where
  "read_lines [] = Some []"
| "read_lines (l # ls) =
     (if skippable l then read_lines ls
      else if l = ''containers = soup.select(container_selector)'' then
        (case read_lines ls of None \<Rightarrow> None | Some ss \<Rightarrow> Some (SelectContainers # ss))
      else if l = ''all_items = []'' then
        (case read_lines ls of None \<Rightarrow> None | Some ss \<Rightarrow> Some (InitItems # ss))
      else if l = ''for container in containers:'' then
        (case read_body (takeWhile in_block ls) of
           None \<Rightarrow> None
         | Some body \<Rightarrow>
             (case read_lines (dropWhile in_block ls) of
                None \<Rightarrow> None
              | Some ss \<Rightarrow> Some (ForContainers body # ss)))
      else if l = ''for item in all_items:'' then
        (if has_prefix [''    print(item)''] ls
         then (case read_lines (drop 1 ls) of None \<Rightarrow> None | Some ss \<Rightarrow> Some (PrintItems # ss))
         else None)
      else if l = ''if all_items:'' then
        (if has_prefix csv_block ls
         then (case read_lines (drop (length csv_block) ls) of
                 None \<Rightarrow> None | Some ss \<Rightarrow> Some (SaveCsv # ss))
         else if has_prefix json_block ls
         then (case read_lines (drop (length json_block) ls) of
                 None \<Rightarrow> None | Some ss \<Rightarrow> Some (SaveJson # ss))
         else None)
      else
        (case strip_prefix (''container_selector = '' @ [dq]) l of
           None \<Rightarrow> None
         | Some t \<Rightarrow>
             (case read_literal dq t of
                None \<Rightarrow> None
              | Some (v, r) \<Rightarrow>
                  if r = [] then
                    (case read_lines ls of
                       None \<Rightarrow> None
                     | Some ss \<Rightarrow> Some (SetContainerSelector v # ss))
                  else None)))"
  by pat_completeness auto
termination
  by (relation "measure length") (auto simp: le_imp_less_Suc length_dropWhile_le)

declare read_lines.simps [simp del]

definition read_program :: "string \<Rightarrow> stmt list option" where
  "read_program text = read_lines (split_on newline text)"

subsection \<open>Putting out the records\<close>

text \<open>
  The three serialisation tails. \<^verbatim>\<open>csv.DictWriter(f, fieldnames=all_items[0].keys())\<close>
  writes, for every record, the values under the field names, and raises
  \<^verbatim>\<open>ValueError\<close> for a record with a key outside them; the program catches the
  exception and prints a message. A cell holding \<open>None\<close> is Python's \<^verbatim>\<open>None\<close>.
\<close>

definition csv_row :: "string list \<Rightarrow> item \<Rightarrow> py_error + string option list" where
  "csv_row fieldnames it =
     (if list_ex (\<lambda>k. k \<notin> set fieldnames) (map fst it) then Inl ValueError
      else Inr (map (\<lambda>k. case map_of it k of None \<Rightarrow> Some [] | Some v \<Rightarrow> v) fieldnames))"

fun csv_rows :: "string list \<Rightarrow> item list \<Rightarrow> py_error + string option list list" where
  "csv_rows fieldnames [] = Inr []"
| "csv_rows fieldnames (it # its) =
     (case csv_row fieldnames it of
        Inl err \<Rightarrow> Inl err
      | Inr r \<Rightarrow>
          (case csv_rows fieldnames its of
             Inl err \<Rightarrow> Inl err
           | Inr rs \<Rightarrow> Inr (r # rs)))"

datatype saved =
    CsvFile "string list" "string option list list"
  | JsonFile "item list"
  | Printed "item list"
  | NothingSaved
  | SaveFailed

definition save_structured :: "output_format \<Rightarrow> item list \<Rightarrow> saved" where
  "save_structured fmt all_items =
     (case fmt of
        Csv \<Rightarrow>
          (case all_items of
             [] \<Rightarrow> NothingSaved
           | first # _ \<Rightarrow>
               (case csv_rows (map fst first) all_items of
                  Inl err \<Rightarrow> SaveFailed
                | Inr rows \<Rightarrow> CsvFile (map fst first) rows))
      | Json \<Rightarrow> (if all_items \<noteq> [] then JsonFile all_items else NothingSaved)
      | Print \<Rightarrow> Printed all_items)"


subsection \<open>Running statements\<close>

text \<open>The variables of the program; \<open>None\<close> is a name that is not bound yet. Reading
  an unbound name raises \<^verbatim>\<open>NameError\<close>.\<close>

record 'e py_state =
  v_container_selector :: "string option"
  v_containers :: "'e list option"
  v_all_items :: "item list option"
  v_item :: "item option"
  v_field_element :: "'e option option"
  v_saved :: "saved option"

definition initial_state :: "'e py_state" where
  "initial_state =
     \<lparr>v_container_selector = None, v_containers = None, v_all_items = None,
      v_item = None, v_field_element = None, v_saved = None\<rparr>"

text \<open>One statement of the loop body, for the container \<open>c\<close> of this round.\<close>

definition exec_body_stmt ::
  "'e soup \<Rightarrow> 'e \<Rightarrow> 'e py_state \<Rightarrow> body_stmt \<Rightarrow> py_error + 'e py_state" where
  "exec_body_stmt soup c st s =
     (case s of
        NewItem \<Rightarrow> Inr (st\<lparr>v_item := Some []\<rparr>)
      | SelectField sel \<Rightarrow>
          (case select_one soup c sel of
             Inl err \<Rightarrow> Inl err
           | Inr m \<Rightarrow> Inr (st\<lparr>v_field_element := Some m\<rparr>))
      | SetField k \<Rightarrow>
          (case v_field_element st of
             None \<Rightarrow> Inl NameError
           | Some field_element \<Rightarrow>
               (case v_item st of
                  None \<Rightarrow> Inl NameError
                | Some it \<Rightarrow>
                    Inr (st\<lparr>v_item := Some (AList.update k
                           (case field_element of
                              Some el \<Rightarrow> Some (get_text soup el)
                            | None \<Rightarrow> None) it)\<rparr>)))
      | AppendItem \<Rightarrow>
          (case v_all_items st of
             None \<Rightarrow> Inl NameError
           | Some its \<Rightarrow>
               (case v_item st of
                  None \<Rightarrow> Inl NameError
                | Some it \<Rightarrow> Inr (st\<lparr>v_all_items := Some (its @ [it])\<rparr>))))"

fun exec_body ::
  "'e soup \<Rightarrow> 'e \<Rightarrow> 'e py_state \<Rightarrow> body_stmt list \<Rightarrow> py_error + 'e py_state" where
  "exec_body soup c st [] = Inr st"
| "exec_body soup c st (s # ss) =
     (case exec_body_stmt soup c st s of
        Inl err \<Rightarrow> Inl err
      | Inr st' \<Rightarrow> exec_body soup c st' ss)"

text \<open>The \<^verbatim>\<open>for\<close> loop: the body once per container, in order; an exception ends
  the program.\<close>

fun exec_for ::
  "'e soup \<Rightarrow> body_stmt list \<Rightarrow> 'e py_state \<Rightarrow> 'e list \<Rightarrow> py_error + 'e py_state" where
  "exec_for soup body st [] = Inr st"
| "exec_for soup body st (c # cs) =
     (case exec_body soup c st body of
        Inl err \<Rightarrow> Inl err
      | Inr st' \<Rightarrow> exec_for soup body st' cs)"

definition exec_stmt :: "'e soup \<Rightarrow> 'e py_state \<Rightarrow> stmt \<Rightarrow> py_error + 'e py_state" where
  "exec_stmt soup st s =
     (case s of
        SetContainerSelector sel \<Rightarrow> Inr (st\<lparr>v_container_selector := Some sel\<rparr>)
      | SelectContainers \<Rightarrow>
          (case v_container_selector st of
             None \<Rightarrow> Inl NameError
           | Some sel \<Rightarrow>
               (case select soup sel of
                  Inl err \<Rightarrow> Inl err
                | Inr cs \<Rightarrow> Inr (st\<lparr>v_containers := Some cs\<rparr>)))
      | InitItems \<Rightarrow> Inr (st\<lparr>v_all_items := Some []\<rparr>)
      | ForContainers body \<Rightarrow>
          (case v_containers st of
             None \<Rightarrow> Inl NameError
           | Some cs \<Rightarrow> exec_for soup body st cs)
      | SaveCsv \<Rightarrow>
          (case v_all_items st of
             None \<Rightarrow> Inl NameError
           | Some its \<Rightarrow> Inr (st\<lparr>v_saved := Some (save_structured Csv its)\<rparr>))
      | SaveJson \<Rightarrow>
          (case v_all_items st of
             None \<Rightarrow> Inl NameError
           | Some its \<Rightarrow> Inr (st\<lparr>v_saved := Some (save_structured Json its)\<rparr>))
      | PrintItems \<Rightarrow>
          (case v_all_items st of
             None \<Rightarrow> Inl NameError
           | Some its \<Rightarrow> Inr (st\<lparr>v_saved := Some (save_structured Print its)\<rparr>)))"

fun exec_stmts :: "'e soup \<Rightarrow> 'e py_state \<Rightarrow> stmt list \<Rightarrow> py_error + 'e py_state" where
  "exec_stmts soup st [] = Inr st"
| "exec_stmts soup st (s # ss) =
     (case exec_stmt soup st s of
        Inl err \<Rightarrow> Inl err
      | Inr st' \<Rightarrow> exec_stmts soup st' ss)"

text \<open>
  A program text, run against a document: \<open>None\<close> when the text is not read; otherwise
  the exception that ended the program, or its list of records and what it put out.
\<close>

definition run_program ::
  "'e soup \<Rightarrow> string \<Rightarrow> (py_error + item list option \<times> saved option) option" where
  "run_program soup text =
     (case read_program text of
        None \<Rightarrow> None
      | Some stmts \<Rightarrow>
          Some (case exec_stmts soup initial_state stmts of
                  Inl err \<Rightarrow> Inl err
                | Inr st \<Rightarrow> Inr (v_all_items st, v_saved st)))"

subsection \<open>Plans that Python reads as written\<close>

text \<open>
  A selector or a name is \<open>plain\<close> when it is free of backslash, line end and NUL.
  The literal the generator writes for a plain selector contains no escape but the
  \<^verbatim>\<open>\"\<close> put there by \<open>escape_dq\<close>, and Python reads it back as the selector; a
  plain name without a single quote is read back as the name.
\<close>

definition plain :: "string \<Rightarrow> bool" where
  "plain s \<longleftrightarrow> bslash \<notin> set s \<and> newline \<notin> set s \<and> CHR 0x0D \<notin> set s \<and> CHR 0x00 \<notin> set s"

definition plan_plain :: "descriptor \<Rightarrow> extractor list \<Rightarrow> bool" where
  "plan_plain cont es \<longleftrightarrow>
     plain (convertToCssSelector (tag cont) (attrs cont))
     \<and> list_all (\<lambda>e. plain (convertToCssSelector (tag e) (attrs e))
                     \<and> plain (name e) \<and> sq \<notin> set (name e)) es"

subsection \<open>The records, described directly\<close>

text \<open>What one extractor finds in one container, and the record that results from
  assigning the findings of the extractors in order.\<close>

definition field_value :: "'e soup \<Rightarrow> 'e \<Rightarrow> extractor \<Rightarrow> string option" where
  "field_value soup c e =
     (case select_one soup c (convertToCssSelector (tag e) (attrs e)) of
        Inr (Some el) \<Rightarrow> Some (get_text soup el)
      | _ \<Rightarrow> None)"

definition fill_item :: "'e soup \<Rightarrow> 'e \<Rightarrow> item \<Rightarrow> extractor list \<Rightarrow> item" where
  "fill_item soup c it es = foldl (\<lambda>acc e. AList.update (name e) (field_value soup c e) acc) it es"

text \<open>The keys of a record: the names in order of first occurrence.\<close>

definition keys_after :: "string list \<Rightarrow> string list \<Rightarrow> string list" where
  "keys_after ks ns = foldl (\<lambda>acc n. if n \<in> set acc then acc else acc @ [n]) ks ns"

text \<open>The scenario document as BeautifulSoup sees it, and a plan with two extractors
  that share the name \<^verbatim>\<open>t\<close>.\<close>

definition scenario_soup :: "nat soup" where
  "scenario_soup =
     \<lparr>select = (\<lambda>s. if s = ''div.card'' then Inr [1, 2, 3] else Inr []),
      select_one = (\<lambda>e s. if s = ''span.t'' \<and> (e = 1 \<or> e = 3) then Inr (Some (e + 10))
                           else if s = ''div.card'' then Inr None
                           else if s = ''b'' \<and> e = 1 then Inr (Some 21)
                           else Inr None),
      get_text = (\<lambda>e. if e = 21 then ''B'' else ''A'')\<rparr>"

definition shared_name_extractors :: "extractor list" where
  "shared_name_extractors =
     [\<lparr>tag = ''span'', attrs = ''class=t'', ident = 1, name = ''t''\<rparr>,
      \<lparr>tag = ''b'', attrs = [], ident = 2, name = ''t''\<rparr>]"

subsection \<open>The lines of the emitted text\<close>

text \<open>The text of \<open>generateContainerBasedScript\<close>, line by line (see the lemma
  \<open>script_lines\<close> below): the lines up to the first statement of the loop body, the
  lines of the fields, and the lines from the \<^verbatim>\<open>append\<close> on.\<close>

definition head_lines :: "descriptor \<Rightarrow> string list" where
  \<open>head_lines cont =
     [[],
      [],
      ''# Find all the container elements'',
      ''container_selector = '' @ [dq] @ escape_dq (convertToCssSelector (tag cont) (attrs cont)) @ [dq],
      ''containers = soup.select(container_selector)'',
      ''print(f"Found {len(containers)} containers.")'',
      [],
      ''# --- Extract data from each container ---'',
      ''all_items = []'',
      ''for container in containers:'',
      ''    item = {}'']\<close>

definition select_line :: "extractor \<Rightarrow> string" where
  \<open>select_line e =
     ''    field_element = container.select_one("''
       @ escape_dq (convertToCssSelector (tag e) (attrs e)) @ ''")''\<close>

definition assign_line :: "extractor \<Rightarrow> string" where
  \<open>assign_line e =
     ''    item['' @ [sq] @ name e @ [sq]
       @ ''] = field_element.get_text(strip=True) if field_element else None''\<close>

definition field_part :: "extractor list \<Rightarrow> string list" where
  "field_part es =
     (if es = [] then [[]] else concat (map (\<lambda>e. [select_line e, assign_line e]) es))"

definition tail_lines :: "output_format \<Rightarrow> string list" where
  \<open>tail_lines fmt =
     [''    all_items.append(item)'', [], []]
       @ (case fmt of
            Csv \<Rightarrow> [''# --- Save data to CSV ---'', ''if all_items:''] @ csv_block @ [[]]
          | Json \<Rightarrow> [''# --- Save data to JSON ---'', ''if all_items:''] @ json_block @ [[]]
          | Print \<Rightarrow>
              [''# --- Print Extracted Data ---'',
               ''print("'' @ [bslash] @ ''n--- Extracted Data ---")'',
               ''for item in all_items:'',
               ''    print(item)'',
               []])\<close>

subsection \<open>The statements of an emitted program\<close>

text \<open>The statements that the text emitted for a container and a list of extractors is
  read as (see the lemmas on reading below): the literals give back the selectors and
  the names.\<close>

definition field_stmts :: "extractor list \<Rightarrow> body_stmt list" where
  "field_stmts es =
     concat (map (\<lambda>e. [SelectField (convertToCssSelector (tag e) (attrs e)), SetField (name e)]) es)"

definition tail_stmt :: "output_format \<Rightarrow> stmt" where
  "tail_stmt fmt = (case fmt of Csv \<Rightarrow> SaveCsv | Json \<Rightarrow> SaveJson | Print \<Rightarrow> PrintItems)"

definition program_stmts :: "descriptor \<Rightarrow> extractor list \<Rightarrow> output_format \<Rightarrow> stmt list" where
  "program_stmts cont es fmt =
     [SetContainerSelector (convertToCssSelector (tag cont) (attrs cont)),
      SelectContainers,
      InitItems,
      ForContainers (NewItem # field_stmts es @ [AppendItem]),
      tail_stmt fmt]"



section \<open>Synthesis under the engine's string-length limit\<close>

text \<open>
  With strings as arguments, nothing in the \<^verbatim>\<open>try\<close> blocks of the two synthesis
  functions raises except the construction of a string longer than the engine allows
  (\<^verbatim>\<open>RangeError: Invalid string length\<close>). The limit is a parameter \<open>maxlen\<close>;
  the arguments are strings, hence no longer than \<open>maxlen\<close>. \<^verbatim>\<open>trim\<close>,
  \<^verbatim>\<open>split\<close>, \<^verbatim>\<open>substring\<close> and the replacement of white space never lengthen a
  string. An iteration builds new strings only on its way to the extended selector, and
  each of them is a piece of that selector; so an iteration raises exactly when the
  selector it would produce is longer than \<open>maxlen\<close>. The definitions above are the
  case in which the limit is never reached.
\<close>

datatype js_error = RangeError

definition within :: "nat \<Rightarrow> string \<Rightarrow> js_error + string" where
  "within maxlen s = (if length s \<le> maxlen then Inr s else Inl RangeError)"

text \<open>The \<^verbatim>\<open>for\<close> loop over \<open>parts\<close>: the first iteration that raises ends it.\<close>

fun loop_within ::
  "nat \<Rightarrow> (string \<Rightarrow> string \<Rightarrow> string) \<Rightarrow> string \<Rightarrow> string list \<Rightarrow> js_error + string" where
  "loop_within maxlen step selector [] = Inr selector"
| "loop_within maxlen step selector (part # parts) =
     (case within maxlen (step selector part) of
        Inl e \<Rightarrow> Inl e
      | Inr selector' \<Rightarrow> loop_within maxlen step selector' parts)"

text \<open>The generator: \<^verbatim>\<open>catch (e) { ...; return tag.trim(); }\<close>\<close>

definition convertToCssSelector_bounded :: "nat \<Rightarrow> string \<Rightarrow> string \<Rightarrow> string" where
  "convertToCssSelector_bounded maxlen tg ats =
     (if trim tg = [] then []
      else if trim ats = [] then trim tg
      else (case loop_within maxlen css_step (trim tg)
                   (filter (\<lambda>p. str_includes p (CHR ''=''))
                      (map trim (split_on (CHR '','') ats))) of
              Inr selector \<Rightarrow> selector
            | Inl e \<Rightarrow> trim tg))"

text \<open>The interactive test:
  \<^verbatim>\<open>catch (e) { return 'INVALID_SELECTOR_DUE_TO_ATTR_PARSE_ERROR'; }\<close>\<close>

definition convertToSelector_bounded :: "nat \<Rightarrow> string \<Rightarrow> string \<Rightarrow> string" where
  "convertToSelector_bounded maxlen t a =
     (if trim a = [] then trim t
      else (case loop_within maxlen sel_step (trim t)
                   (filter (\<lambda>p. p \<noteq> []) (map trim (split_on (CHR '','') a))) of
              Inr selector \<Rightarrow> selector
            | Inl e \<Rightarrow> ''INVALID_SELECTOR_DUE_TO_ATTR_PARSE_ERROR''))"

section \<open>Properties of the string primitives and of clause parsing\<close>

lemma split_on_nonempty: "split_on d s \<noteq> []"
  by (induction s) (auto simp: Let_def)

lemma split_on_append: "split_on d (xs @ d # ys) = split_on d xs @ split_on d ys"
proof (induction xs)
  case Nil
  show ?case by simp
next
  case (Cons x xs)
  have ne: "split_on d xs \<noteq> []" by (rule split_on_nonempty)
  show ?case using Cons ne by (cases "split_on d xs") (auto simp: Let_def)
qed

lemma split_on_absent: "d \<notin> set s \<Longrightarrow> split_on d s = [s]"
  by (induction s) (auto simp: Let_def)

lemma split_on_pieces: "p \<in> set (split_on d s) \<Longrightarrow> set p \<subseteq> set s"
proof (induction s arbitrary: p)
  case Nil
  then show ?case by simp
next
  case (Cons c cs)
  have ne: "split_on d cs \<noteq> []" by (rule split_on_nonempty)
  then obtain h t where ht: "split_on d cs = h # t" by (cases "split_on d cs") auto
  show ?case
  proof (cases "c = d")
    case True
    with Cons show ?thesis by auto
  next
    case False
    with Cons.prems ht have "p = c # h \<or> p \<in> set t" by (simp add: Let_def)
    moreover have "set h \<subseteq> set cs" using Cons.IH [of h] ht by simp
    moreover have "\<And>q. q \<in> set t \<Longrightarrow> set q \<subseteq> set cs" using Cons.IH ht by simp
    ultimately show ?thesis by auto
  qed
qed

lemma dropWhile_all_iff:
  "(\<forall>c\<in>set (dropWhile P xs). P c) \<longleftrightarrow> (\<forall>c\<in>set xs. P c)"
  by (induction xs) auto

lemma trim_empty_iff: "trim s = [] \<longleftrightarrow> (\<forall>c\<in>set s. isWhiteSpace c)"
proof -
  have "trim s = [] \<longleftrightarrow> dropWhile isWhiteSpace (rev (dropWhile isWhiteSpace s)) = []"
    by (simp add: trim_def)
  also have "\<dots> \<longleftrightarrow> (\<forall>c\<in>set (dropWhile isWhiteSpace s). isWhiteSpace c)"
    by simp
  also have "\<dots> \<longleftrightarrow> (\<forall>c\<in>set s. isWhiteSpace c)"
    by (rule dropWhile_all_iff)
  finally show ?thesis .
qed

lemma append_filter_guard: "\<not> (k \<noteq> [] \<and> v \<noteq> []) \<Longrightarrow> append_filter f s k v = s"
  by (auto simp: append_filter_def)

lemma css_step_constraint: "css_step s p = foldl (add_constraint first_token) s (css_constraint p)"
  by (simp add: css_step_def css_constraint_def add_constraint_def Let_def append_filter_guard)

lemma sel_step_constraint: "sel_step s p = foldl (add_constraint ws_to_hash) s (sel_constraint p)"
  by (simp add: sel_step_def sel_constraint_def add_constraint_def Let_def append_filter_guard)

lemma foldl_concat_map:
  "(\<And>s p. step s p = foldl g s (h p)) \<Longrightarrow> foldl step s ps = foldl g s (concat (map h ps))"
  by (induction ps arbitrary: s) auto

lemma blank_parts_css:
  assumes "trim ats = []"
  shows "filter (\<lambda>p. str_includes p (CHR ''='')) (map trim (split_on (CHR '','') ats)) = []"
proof -
  have ws: "\<forall>c\<in>set ats. isWhiteSpace c" using assms by (simp add: trim_empty_iff)
  have "\<And>p. p \<in> set (split_on (CHR '','') ats) \<Longrightarrow> trim p = []"
    using ws split_on_pieces by (fastforce simp: trim_empty_iff)
  then show ?thesis by (auto simp: filter_empty_conv str_includes_def)
qed

lemma blank_parts_sel:
  assumes "trim a = []"
  shows "filter (\<lambda>p. p \<noteq> []) (map trim (split_on (CHR '','') a)) = []"
proof -
  have ws: "\<forall>c\<in>set a. isWhiteSpace c" using assms by (simp add: trim_empty_iff)
  have "\<And>p. p \<in> set (split_on (CHR '','') a) \<Longrightarrow> trim p = []"
    using ws split_on_pieces by (fastforce simp: trim_empty_iff)
  then show ?thesis by (auto simp: filter_empty_conv)
qed

lemma convertToCssSelector_parse:
  "convertToCssSelector tg ats =
     (if trim tg = [] then [] else foldl (add_constraint first_token) (trim tg) (parse_css ats))"
proof (cases "trim ats = []")
  case True
  then show ?thesis by (simp add: convertToCssSelector_def parse_css_def blank_parts_css)
next
  case False
  then show ?thesis
    by (simp add: convertToCssSelector_def parse_css_def foldl_concat_map [OF css_step_constraint])
qed

lemma convertToSelector_parse:
  "convertToSelector t a = foldl (add_constraint ws_to_hash) (trim t) (parse_sel a)"
proof (cases "trim a = []")
  case True
  then show ?thesis by (simp add: convertToSelector_def parse_sel_def blank_parts_sel)
next
  case False
  then show ?thesis
    by (simp add: convertToSelector_def parse_sel_def foldl_concat_map [OF sel_step_constraint])
qed

lemma parse_css_append: "parse_css (c1 @ '','' @ c2) = parse_css c1 @ parse_css c2"
  by (simp add: parse_css_def split_on_append)

lemma parse_sel_append: "parse_sel (c1 @ '','' @ c2) = parse_sel c1 @ parse_sel c2"
  by (simp add: parse_sel_def split_on_append)

lemma trim_subset: "set (trim s) \<subseteq> set s"
proof
  fix x assume "x \<in> set (trim s)"
  then have "x \<in> set (rev (dropWhile isWhiteSpace s))"
    unfolding trim_def by (auto dest: set_dropWhileD)
  then show "x \<in> set s" by (auto dest: set_dropWhileD)
qed

lemma indexOf_absent: "c \<notin> set s \<Longrightarrow> indexOf s c = - 1"
  by (induction s) (auto simp: Let_def)

lemma parts_without_eq:
  assumes "CHR ''='' \<notin> set seg" and "q \<in> set (map trim (split_on (CHR '','') seg))"
  shows "CHR ''='' \<notin> set q"
proof -
  from assms(2) obtain p where p: "p \<in> set (split_on (CHR '','') seg)" and q: "q = trim p"
    by auto
  have "set q \<subseteq> set seg" using split_on_pieces [OF p] trim_subset [of p] q by blast
  with assms(1) show ?thesis by blast
qed

lemma parse_css_no_eq: "CHR ''='' \<notin> set seg \<Longrightarrow> parse_css seg = []"
proof -
  assume a: "CHR ''='' \<notin> set seg"
  have "filter (\<lambda>p. str_includes p (CHR ''='')) (map trim (split_on (CHR '','') seg)) = []"
    unfolding filter_empty_conv str_includes_def using parts_without_eq [OF a] by blast
  then show ?thesis by (simp add: parse_css_def)
qed

lemma sel_constraint_no_eq: "CHR ''='' \<notin> set q \<Longrightarrow> sel_constraint q = []"
  by (simp add: sel_constraint_def indexOf_absent)

lemma parse_sel_no_eq: "CHR ''='' \<notin> set seg \<Longrightarrow> parse_sel seg = []"
proof -
  assume a: "CHR ''='' \<notin> set seg"
  have "\<forall>q\<in>set (filter (\<lambda>p. p \<noteq> []) (map trim (split_on (CHR '','') seg))).
      sel_constraint q = []"
  proof
    fix q assume "q \<in> set (filter (\<lambda>p. p \<noteq> []) (map trim (split_on (CHR '','') seg)))"
    then have "q \<in> set (map trim (split_on (CHR '','') seg))" by simp
    then show "sel_constraint q = []" using parts_without_eq [OF a] sel_constraint_no_eq by blast
  qed
  then show ?thesis unfolding parse_sel_def by simp
qed

lemma split_ws_nonempty: "split_ws s \<noteq> []"
  by (induction s rule: split_ws.induct) (auto simp: Let_def)

lemma hd_split_ws: "hd (split_ws s) = takeWhile (\<lambda>c. \<not> isWhiteSpace c) s"
proof (induction s rule: split_ws.induct)
  case 1
  show ?case by simp
next
  case (2 c cs)
  show ?case
  proof (cases "isWhiteSpace c")
    case True
    then show ?thesis by simp
  next
    case False
    with 2 show ?thesis by (simp add: Let_def)
  qed
qed

lemma first_token_takeWhile: "first_token v = takeWhile (\<lambda>c. \<not> isWhiteSpace c) v"
proof (cases "split_ws v")
  case Nil
  then show ?thesis using split_ws_nonempty [of v] by simp
next
  case (Cons x xs)
  then show ?thesis using hd_split_ws [of v] by (simp add: first_token_def)
qed

lemma strip_quotes_wrapped:
  "q = dq \<or> q = sq \<Longrightarrow> strip_quotes (q # body @ [q]) = body"
  by (auto simp: strip_quotes_def startsWith_def endsWith_def substring_def Let_def)

lemma add_constraint_extends: "\<exists>x. add_constraint idtok s kv = s @ x"
  by (simp add: add_constraint_def append_filter_def Let_def)

subsection \<open>Where the two synthesis functions agree\<close>

lemma indexOf_present: "c \<in> set s \<Longrightarrow> indexOf s c \<noteq> - 1"
proof (induction s)
  case Nil
  then show ?case by simp
next
  case (Cons x xs)
  have nn: "\<And>ys. indexOf ys c \<ge> - 1" 
  proof -
    fix ys show "indexOf ys c \<ge> - 1" by (induction ys) (auto simp: Let_def)
  qed
  show ?case
  proof (cases "x = c")
    case True
    then show ?thesis by simp
  next
    case False
    with Cons have "indexOf xs c \<noteq> - 1" by simp
    with nn [of xs] have "\<not> indexOf xs c < 0" by linarith
    with False show ?thesis by (simp add: Let_def)
  qed
qed

lemma constraint_same:
  assumes "CHR ''='' \<in> set p"
    and "\<forall>kv\<in>set (sel_constraint p). strip_quotes (snd kv) = snd kv"
  shows "css_constraint p = sel_constraint p"
proof -
  let ?i = "indexOf p (CHR ''='')"
  let ?k = "trim (substring p 0 ?i)"
  let ?v = "trim (substring_from p (?i + 1))"
  have i: "?i \<noteq> - 1" using assms(1) by (rule indexOf_present)
  have s: "sel_constraint p = (if ?k \<noteq> [] \<and> ?v \<noteq> [] then [(?k, ?v)] else [])"
    using i by (simp add: sel_constraint_def Let_def)
  have c: "css_constraint p
             = (if ?k \<noteq> [] \<and> strip_quotes ?v \<noteq> [] then [(?k, strip_quotes ?v)] else [])"
    by (simp add: css_constraint_def Let_def)
  show ?thesis
  proof (cases "?k \<noteq> [] \<and> ?v \<noteq> []")
    case True
    with s assms(2) have "strip_quotes ?v = ?v" by simp
    with True s c show ?thesis by simp
  next
    case False
    have "strip_quotes [] = []" by (simp add: strip_quotes_def startsWith_def)
    with False s c show ?thesis by auto
  qed
qed

lemma concat_map_filter_if:
  "concat (map f (filter P xs)) = concat (map (\<lambda>x. if P x then f x else []) xs)"
  by (induction xs) auto

lemma parse_same:
  assumes "\<forall>kv\<in>set (parse_sel a). strip_quotes (snd kv) = snd kv"
  shows "parse_css a = parse_sel a"
proof -
  let ?ps = "map trim (split_on (CHR '','') a)"
  have each: "\<forall>p\<in>set ?ps.
      (if str_includes p (CHR ''='') then css_constraint p else [])
        = (if p \<noteq> [] then sel_constraint p else [])"
  proof
    fix p assume p: "p \<in> set ?ps"
    show "(if str_includes p (CHR ''='') then css_constraint p else [])
        = (if p \<noteq> [] then sel_constraint p else [])"
    proof (cases "CHR ''='' \<in> set p")
      case True
      then have ne: "p \<noteq> []" by auto
      from p ne have "p \<in> set (filter (\<lambda>p. p \<noteq> []) ?ps)" by simp
      then have "sel_constraint p \<in> set (map sel_constraint (filter (\<lambda>p. p \<noteq> []) ?ps))"
        unfolding set_map by (rule imageI)
      then have "set (sel_constraint p) \<subseteq> set (parse_sel a)"
        unfolding parse_sel_def set_concat by blast
      with assms have "\<forall>kv\<in>set (sel_constraint p). strip_quotes (snd kv) = snd kv" by blast
      from constraint_same [OF True this] True ne show ?thesis by (simp add: str_includes_def)
    next
      case False
      then show ?thesis by (simp add: str_includes_def sel_constraint_no_eq)
    qed
  qed
  have "concat (map css_constraint (filter (\<lambda>p. str_includes p (CHR ''='')) ?ps))
          = concat (map (\<lambda>p. if str_includes p (CHR ''='') then css_constraint p else []) ?ps)"
    by (rule concat_map_filter_if)
  also have "\<dots> = concat (map (\<lambda>p. if p \<noteq> [] then sel_constraint p else []) ?ps)"
  proof -
    have "map (\<lambda>p. if str_includes p (CHR ''='') then css_constraint p else []) ?ps
            = map (\<lambda>p. if p \<noteq> [] then sel_constraint p else []) ?ps"
      by (rule map_cong [OF refl]) (use each in blast)
    then show ?thesis by (simp only:)
  qed
  also have "\<dots> = concat (map sel_constraint (filter (\<lambda>p. p \<noteq> []) ?ps))"
    by (rule concat_map_filter_if [symmetric])
  finally show ?thesis unfolding parse_css_def parse_sel_def .
qed

lemma takeWhile_all: "\<forall>c\<in>set v. P c \<Longrightarrow> takeWhile P v = v"
  by (induction v) auto

lemma id_tokens_same:
  "\<forall>c\<in>set v. \<not> isWhiteSpace c \<Longrightarrow> first_token v = ws_to_hash v"
proof -
  assume a: "\<forall>c\<in>set v. \<not> isWhiteSpace c"
  then have "first_token v = v" by (simp add: first_token_takeWhile takeWhile_all)
  moreover from a have "ws_to_hash v = v" unfolding ws_to_hash_def by (induction v) auto
  ultimately show ?thesis by simp
qed

lemma add_constraint_same:
  assumes "toLowerCase (fst kv) = ''id'' \<longrightarrow> (\<forall>c\<in>set (snd kv). \<not> isWhiteSpace c)"
  shows "add_constraint first_token s kv = add_constraint ws_to_hash s kv"
proof (cases "toLowerCase (fst kv) = ''id''")
  case True
  with assms have "first_token (snd kv) = ws_to_hash (snd kv)" by (simp add: id_tokens_same)
  then show ?thesis by (simp add: add_constraint_def append_filter_def)
next
  case False
  then show ?thesis by (simp add: add_constraint_def append_filter_def)
qed

lemma foldl_add_same:
  "\<forall>kv\<in>set kvs. toLowerCase (fst kv) = ''id'' \<longrightarrow> (\<forall>c\<in>set (snd kv). \<not> isWhiteSpace c) \<Longrightarrow>
     foldl (add_constraint first_token) s kvs = foldl (add_constraint ws_to_hash) s kvs"
proof (induction kvs arbitrary: s)
  case Nil
  show ?case by simp
next
  case (Cons kv kvs)
  then have "add_constraint first_token s kv = add_constraint ws_to_hash s kv"
    by (intro add_constraint_same) simp
  with Cons show ?case by simp
qed

text \<open>
  For a tag that is not blank, the interactive test and the generator build the same
  selector whenever no constraint value of the clause is wrapped in quotes and no id
  value contains white space: the two places where the functions are written
  differently are then not exercised.
\<close>

lemma synthesis_paths_agree:
  assumes "trim t \<noteq> []"
    and "\<forall>kv\<in>set (parse_sel a). strip_quotes (snd kv) = snd kv"
    and "\<forall>kv\<in>set (parse_sel a).
           toLowerCase (fst kv) = ''id'' \<longrightarrow> (\<forall>c\<in>set (snd kv). \<not> isWhiteSpace c)"
  shows "convertToSelector t a = convertToCssSelector t a"
proof -
  have "convertToCssSelector t a = foldl (add_constraint first_token) (trim t) (parse_sel a)"
    using assms(1) by (simp add: convertToCssSelector_parse parse_same [OF assms(2)])
  also have "\<dots> = foldl (add_constraint ws_to_hash) (trim t) (parse_sel a)"
    using assms(3) by (rule foldl_add_same)
  finally show ?thesis by (simp add: convertToSelector_parse)
qed

section \<open>Properties of the interactive test\<close>

lemma matchesInContainers_total:
  "\<forall>c\<in>set cs. querySelector doc c sel \<noteq> Inl SyntaxError \<Longrightarrow>
     matchesInContainers doc sel cs
       = (map (\<lambda>c. ElementQuery c sel) cs, Inr (filter (contains_match doc sel) cs))"
proof (induction cs)
  case Nil
  show ?case by simp
next
  case (Cons c cs)
  from Cons.prems obtain m where m: "querySelector doc c sel = Inr m"
    by (cases "querySelector doc c sel") (auto intro: dom_error.exhaust)
  have rest: "matchesInContainers doc sel cs
       = (map (\<lambda>c. ElementQuery c sel) cs, Inr (filter (contains_match doc sel) cs))"
    using Cons by simp
  have cm: "contains_match doc sel c \<longleftrightarrow> m \<noteq> None"
    by (cases m) (simp_all add: contains_match_def m)
  show ?case
    by (simp add: m rest cm)
qed

section \<open>Properties of the emitted text\<close>

lemma join_member_sublist: "x \<in> set xs \<Longrightarrow> sublist x (join sep xs)"
proof (induction sep xs rule: join.induct)
  case (1 sep)
  then show ?case by simp
next
  case (2 sep y)
  then show ?case by simp
next
  case (3 sep y z zs)
  show ?case
  proof (cases "x = y")
    case True
    then show ?thesis by simp
  next
    case False
    with 3 have "sublist x (join sep (z # zs))" by simp
    then obtain ps ss where "join sep (z # zs) = ps @ x @ ss" by (auto simp: sublist_def)
    then have "join sep (y # z # zs) = (y @ sep @ ps) @ x @ ss" by simp
    then show ?thesis unfolding sublist_def by blast
  qed
qed

lemmas sublist_trans = sublist_order.order_trans

lemma file_name_line_embedded:
  assumes "\<not> incomplete p"
  shows \<open>sublist (''file_name = "'' @ escape_dq (fileName p) @ ''"'') (generateBeautifulSoupCode p)\<close>
  using assms unfolding generateBeautifulSoupCode_def Let_def
  by (simp only: if_False) (rule join_member_sublist, simp)

lemma mainScript_embedded:
  assumes "\<not> incomplete p" and "scrapingMode_p p = Structured"
  shows "sublist (generateContainerBasedScript (container_p p) (extractors_p p) (outputFormat p))
           (generateBeautifulSoupCode p)"
  using assms unfolding generateBeautifulSoupCode_def Let_def
  by (simp only: if_False if_True) (rule join_member_sublist, simp)

lemma extractionLoop_embedded:
  "sublist (extractionLoop cont es) (generateContainerBasedScript cont es fmt)"
  unfolding generateContainerBasedScript_def
  by (cases fmt) (simp_all only: output_format.case, (rule join_member_sublist, simp)+)

lemma fields_embedded:
  "sublist (join [newline] (map field_lines es)) (extractionLoop cont es)"
  unfolding extractionLoop_def Let_def
  by (rule join_member_sublist) simp

lemma item_line_embedded:
  "sublist (''item['' @ [sq] @ name e @ [sq] @ '']'') (field_lines e)"
proof -
  let ?l2 = "''    item['' @ [sq] @ name e @ [sq] @ ''] = field_element.get_text(strip=True) if field_element else None''"
  have "sublist ?l2 (field_lines e)"
    unfolding field_lines_def Let_def by (rule join_member_sublist) simp
  moreover have "?l2 = ''    '' @ (''item['' @ [sq] @ name e @ [sq] @ '']'') @ '' = field_element.get_text(strip=True) if field_element else None''"
    by simp
  then have "sublist (''item['' @ [sq] @ name e @ [sq] @ '']'') ?l2"
    by (metis sublist_appendI)
  ultimately show ?thesis by (rule sublist_trans [rotated])
qed

lemma name_embedded_structured:
  assumes "\<not> incomplete p" and "scrapingMode_p p = Structured" and "e \<in> set (extractors_p p)"
  shows "sublist (''item['' @ [sq] @ name e @ [sq] @ '']'') (generateBeautifulSoupCode p)"
proof -
  have "sublist (field_lines e) (join [newline] (map field_lines (extractors_p p)))"
    using assms(3) by (intro join_member_sublist) simp
  then have "sublist (''item['' @ [sq] @ name e @ [sq] @ '']'')
               (join [newline] (map field_lines (extractors_p p)))"
    using item_line_embedded sublist_trans by blast
  then have "sublist (''item['' @ [sq] @ name e @ [sq] @ '']'')
               (extractionLoop (container_p p) (extractors_p p))"
    using fields_embedded sublist_trans by blast
  then have "sublist (''item['' @ [sq] @ name e @ [sq] @ '']'')
               (generateContainerBasedScript (container_p p) (extractors_p p) (outputFormat p))"
    using extractionLoop_embedded sublist_trans by blast
  then show ?thesis
    using mainScript_embedded [OF assms(1,2)] sublist_trans by blast
qed


lemma simpleScript_embedded:
  assumes "\<not> incomplete p" and "scrapingMode_p p = Simple" and "extractors_p p = e # rest"
  shows "sublist (generateSimpleListScript e (outputFormat p)) (generateBeautifulSoupCode p)"
  using assms unfolding generateBeautifulSoupCode_def Let_def
  by (simp only: if_False scraping_mode.distinct list.case) (rule join_member_sublist, simp)

lemma csv_header_embedded:
  \<open>sublist (''writer.writerow(['' @ [sq] @ name e @ [sq] @ ''])'') (generateSimpleListScript e Csv)\<close>
proof -
  let ?l = "''            writer.writerow(['' @ [sq] @ name e @ [sq] @ ''])  # Header''"
  have "sublist ?l (generateSimpleListScript e Csv)"
    unfolding generateSimpleListScript_def
    by (simp only: output_format.case) (rule join_member_sublist, simp)
  moreover have "?l = ''            '' @ (''writer.writerow(['' @ [sq] @ name e @ [sq] @ ''])'') @ ''  # Header''"
    by simp
  then have "sublist (''writer.writerow(['' @ [sq] @ name e @ [sq] @ ''])'') ?l"
    by (metis sublist_appendI)
  ultimately show ?thesis by (rule sublist_trans [rotated])
qed

lemma json_key_embedded:
  \<open>sublist (''output_json = {'' @ [sq] @ name e @ [sq] @ '': extracted_data}'')
     (generateSimpleListScript e Json)\<close>
proof -
  let ?l = "''        output_json = {'' @ [sq] @ name e @ [sq] @ '': extracted_data}''"
  have "sublist ?l (generateSimpleListScript e Json)"
    unfolding generateSimpleListScript_def
    by (simp only: output_format.case) (rule join_member_sublist, simp)
  moreover have "?l = ''        '' @ (''output_json = {'' @ [sq] @ name e @ [sq] @ '': extracted_data}'') @ []"
    by simp
  then have "sublist (''output_json = {'' @ [sq] @ name e @ [sq] @ '': extracted_data}'') ?l"
    by (metis sublist_appendI)
  ultimately show ?thesis by (rule sublist_trans [rotated])
qed

lemma name_embedded_simple:
  assumes "\<not> incomplete p" and "scrapingMode_p p = Simple" and "extractors_p p = e # rest"
  shows \<open>(outputFormat p = Csv \<longrightarrow>
            sublist (''writer.writerow(['' @ [sq] @ name e @ [sq] @ ''])'') (generateBeautifulSoupCode p))
         \<and> (outputFormat p = Json \<longrightarrow>
            sublist (''output_json = {'' @ [sq] @ name e @ [sq] @ '': extracted_data}'')
              (generateBeautifulSoupCode p))\<close>
proof (intro conjI impI)
  assume "outputFormat p = Csv"
  then have "sublist (generateSimpleListScript e Csv) (generateBeautifulSoupCode p)"
    using simpleScript_embedded [OF assms] by simp
  with csv_header_embedded [of e]
  show \<open>sublist (''writer.writerow(['' @ [sq] @ name e @ [sq] @ ''])'') (generateBeautifulSoupCode p)\<close>
    by (rule sublist_trans)
next
  assume "outputFormat p = Json"
  then have "sublist (generateSimpleListScript e Json) (generateBeautifulSoupCode p)"
    using simpleScript_embedded [OF assms] by simp
  with json_key_embedded [of e]
  show \<open>sublist (''output_json = {'' @ [sq] @ name e @ [sq] @ '': extracted_data}'')
              (generateBeautifulSoupCode p)\<close>
    by (rule sublist_trans)
qed

lemma escape_dq_quotes_preceded:
  "i < length (escape_dq s) \<Longrightarrow> escape_dq s ! i = dq \<Longrightarrow> 0 < i \<and> escape_dq s ! (i - 1) = bslash"
proof (induction s arbitrary: i)
  case Nil
  then show ?case by (simp add: escape_dq_def)
next
  case (Cons c cs)
  have ih: "\<And>j. j < length (escape_dq cs) \<Longrightarrow> escape_dq cs ! j = dq
              \<Longrightarrow> 0 < j \<and> escape_dq cs ! (j - 1) = bslash"
    using Cons.IH by blast
  show ?case
  proof (cases "c = dq")
    case True
    then have e: "escape_dq (c # cs) = bslash # dq # escape_dq cs" by (simp add: escape_dq_def)
    show ?thesis
    proof (cases i)
      case 0
      with Cons.prems e show ?thesis by (simp add: bslash_def dq_def)
    next
      case (Suc j)
      show ?thesis
      proof (cases j)
        case 0
        with Suc e show ?thesis by simp
      next
        case (Suc k)
        with \<open>i = Suc j\<close> Cons.prems e have "k < length (escape_dq cs)" "escape_dq cs ! k = dq"
          by simp_all
        from ih [OF this] obtain k' where "k = Suc k'" "escape_dq cs ! k' = bslash"
          by (cases k) auto
        with Suc \<open>i = Suc j\<close> e show ?thesis by simp
      qed
    qed
  next
    case False
    then have e: "escape_dq (c # cs) = c # escape_dq cs" by (simp add: escape_dq_def)
    show ?thesis
    proof (cases i)
      case 0
      with Cons.prems e False show ?thesis by simp
    next
      case (Suc j)
      with Cons.prems e have "j < length (escape_dq cs)" "escape_dq cs ! j = dq" by simp_all
      from ih [OF this] obtain j' where "j = Suc j'" "escape_dq cs ! j' = bslash"
        by (cases j) auto
      with Suc e show ?thesis by simp
    qed
  qed
qed

lemma literal_body_ok_plain_Cons:
  "c \<noteq> q \<Longrightarrow> c \<noteq> bslash \<Longrightarrow> c \<noteq> newline \<Longrightarrow> literal_body_ok q (c # cs) = literal_body_ok q cs"
  by (cases cs) simp_all

lemma literal_body_ok_plain:
  "\<forall>c\<in>set s. c \<noteq> q \<and> c \<noteq> bslash \<and> c \<noteq> newline \<Longrightarrow> literal_body_ok q s"
  by (induction s) (simp_all add: literal_body_ok_plain_Cons del: literal_body_ok.simps(3))

lemma escape_dq_literal_ok:
  "bslash \<notin> set s \<Longrightarrow> newline \<notin> set s \<Longrightarrow> literal_body_ok dq (escape_dq s)"
proof (induction s)
  case Nil
  show ?case by (simp add: escape_dq_def)
next
  case (Cons c cs)
  then have ih: "literal_body_ok dq (escape_dq cs)" by simp
  show ?case
  proof (cases "c = dq")
    case True
    then have "escape_dq (c # cs) = bslash # dq # escape_dq cs" by (simp add: escape_dq_def)
    with ih show ?thesis by simp
  next
    case False
    then have "escape_dq (c # cs) = c # escape_dq cs" by (simp add: escape_dq_def)
    moreover have "c \<noteq> bslash" "c \<noteq> newline" using Cons.prems by auto
    ultimately show ?thesis using ih False by (simp add: literal_body_ok_plain_Cons del: literal_body_ok.simps(3))
  qed
qed

lemma word_char_plain: "word_char c \<Longrightarrow> c \<noteq> sq \<and> c \<noteq> bslash \<and> c \<noteq> newline \<and> c \<noteq> dq"
  by (auto simp: word_char_def Let_def sq_def bslash_def newline_def dq_def)

lemma sanitize_name_ok: "literal_body_ok sq (sanitize_name s)"
proof (rule literal_body_ok_plain)
  show "\<forall>c\<in>set (sanitize_name s). c \<noteq> sq \<and> c \<noteq> bslash \<and> c \<noteq> newline"
    using word_char_plain by (auto simp: sanitize_name_def sq_def bslash_def newline_def)
qed

section \<open>Properties of the emitted loop\<close>

lemma fill_item_keys: "map fst (fill_item soup c it es) = keys_after (map fst it) (map name es)"
proof (induction es arbitrary: it)
  case Nil
  show ?case by (simp add: fill_item_def keys_after_def)
next
  case (Cons e es)
  have "map fst (fill_item soup c (AList.update (name e) (field_value soup c e) it) es)
          = keys_after (map fst (AList.update (name e) (field_value soup c e) it)) (map name es)"
    by (rule Cons.IH)
  then show ?case by (simp add: fill_item_def keys_after_def update_keys)
qed

lemma keys_after_set: "set (keys_after ks ns) = set ks \<union> set ns"
  unfolding keys_after_def by (induction ns arbitrary: ks) auto

lemma keys_after_distinct: "distinct ks \<Longrightarrow> distinct (keys_after ks ns)"
  unfolding keys_after_def by (induction ns arbitrary: ks) auto

lemma keys_after_length: "length (keys_after [] ns) = card (set ns)"
proof -
  have "distinct (keys_after [] ns)" by (simp add: keys_after_distinct)
  then have "length (keys_after [] ns) = card (set (keys_after [] ns))"
    by (simp add: distinct_card)
  then show ?thesis by (simp add: keys_after_set)
qed

lemma fill_item_other:
  "k \<notin> name ` set es \<Longrightarrow> map_of (fill_item soup c it es) k = map_of it k"
proof (induction es arbitrary: it)
  case Nil
  show ?case by (simp add: fill_item_def)
next
  case (Cons e es)
  then have "map_of (fill_item soup c (AList.update (name e) (field_value soup c e) it) es) k
               = map_of (AList.update (name e) (field_value soup c e) it) k"
    by simp
  with Cons.prems show ?case by (simp add: fill_item_def update_conv')
qed

lemma fill_item_last_wins:
  assumes "name e \<notin> name ` set es2"
  shows "map_of (fill_item soup c it (es1 @ e # es2)) (name e) = Some (field_value soup c e)"
proof -
  have "fill_item soup c it (es1 @ e # es2)
          = fill_item soup c (AList.update (name e) (field_value soup c e) (fill_item soup c it es1)) es2"
    by (simp add: fill_item_def)
  then show ?thesis by (simp add: fill_item_other [OF assms] update_conv')
qed



lemma csv_rows_same_keys:
  "\<forall>it\<in>set its. map fst it = fieldnames \<Longrightarrow>
     csv_rows fieldnames its
       = Inr (map (\<lambda>it. map (\<lambda>k. case map_of it k of None \<Rightarrow> Some [] | Some v \<Rightarrow> v) fieldnames) its)"
proof (induction its)
  case Nil
  show ?case by simp
next
  case (Cons it its)
  then have k: "map fst it = fieldnames" by simp
  have "csv_row fieldnames it
          = Inr (map (\<lambda>k. case map_of it k of None \<Rightarrow> Some [] | Some v \<Rightarrow> v) fieldnames)"
    unfolding csv_row_def using k by (simp add: list_ex_iff)
  moreover have "csv_rows fieldnames its
       = Inr (map (\<lambda>it. map (\<lambda>k. case map_of it k of None \<Rightarrow> Some [] | Some v \<Rightarrow> v) fieldnames) its)"
    using Cons by simp
  ultimately show ?case by simp
qed


lemma save_structured_csv_header:
  assumes "\<forall>it\<in>set its. map fst it = ks" and "its \<noteq> []"
  shows "\<exists>rows. save_structured Csv its = CsvFile ks rows \<and> length rows = length its"
proof -
  from assms(2) obtain first rest where c: "its = first # rest" by (cases its) auto
  with assms(1) have k: "map fst first = ks" by simp
  have "\<forall>it\<in>set its. map fst it = map fst first" using assms(1) k by simp
  from csv_rows_same_keys [OF this] c k show ?thesis
    by (simp add: save_structured_def)
qed

lemma filled_items_keys:
  "\<forall>it\<in>set (map (\<lambda>c. fill_item soup c [] es) containers). map fst it = keys_after [] (map name es)"
proof
  fix it assume "it \<in> set (map (\<lambda>c. fill_item soup c [] es) containers)"
  then obtain c where "it = fill_item soup c [] es" by auto
  then show "map fst it = keys_after [] (map name es)" by (simp add: fill_item_keys)
qed


lemma scenario_selectors:
  "convertToCssSelector ''div'' ''class=card'' = ''div.card''"
  "convertToCssSelector ''span'' ''class=t'' = ''span.t''"
  "convertToCssSelector ''b'' [] = ''b''"
  by code_simp+

lemma scenario_plain:
  "plan_plain (container_p scenario_params) (extractors_p scenario_params)"
  "plan_plain (container_p scenario_params) shared_name_extractors"
  by (simp_all add: plan_plain_def plain_def scenario_params_def shared_name_extractors_def
        scenario_selectors bslash_def newline_def sq_def)

subsection \<open>Reading literals and lines\<close>

lemma strip_prefix_append: "strip_prefix p (p @ r) = Some r"
  by (induction p) simp_all

lemma read_literal_close: "read_literal q (q # t) = Some ([], t)"
  by (cases t) simp_all

lemma read_literal_plain_char:
  assumes "c \<noteq> q" "c \<noteq> bslash" "c \<noteq> newline" "c \<noteq> CHR 0x0D" "c \<noteq> CHR 0x00" "t \<noteq> []"
  shows "read_literal q (c # t)
           = (case read_literal q t of None \<Rightarrow> None | Some (v, r) \<Rightarrow> Some (c # v, r))"
  using assms by (cases t) simp_all

lemma read_literal_escaped_dq:
  assumes "q \<noteq> bslash"
  shows "read_literal q (bslash # dq # t)
           = (case read_literal q t of None \<Rightarrow> None | Some (v, r) \<Rightarrow> Some (dq # v, r))"
  using assms by simp

lemma read_literal_selector:
  "plain s \<Longrightarrow> read_literal dq (escape_dq s @ dq # rest) = Some (s, rest)"
proof (induction s)
  case Nil
  show ?case by (simp add: escape_dq_def read_literal_close)
next
  case (Cons c cs)
  then have ih: "read_literal dq (escape_dq cs @ dq # rest) = Some (cs, rest)"
    by (simp add: plain_def)
  from Cons.prems have p: "c \<noteq> bslash" "c \<noteq> newline" "c \<noteq> CHR 0x0D" "c \<noteq> CHR 0x00"
    by (auto simp: plain_def)
  show ?case
  proof (cases "c = dq")
    case True
    have "escape_dq (c # cs) @ dq # rest = bslash # dq # (escape_dq cs @ dq # rest)"
      using True by (simp add: escape_dq_def)
    moreover have "dq \<noteq> bslash" by (simp add: dq_def bslash_def)
    ultimately show ?thesis using ih True by (simp only: read_literal_escaped_dq) simp
  next
    case False
    have e: "escape_dq (c # cs) @ dq # rest = c # (escape_dq cs @ dq # rest)"
      using False by (simp add: escape_dq_def)
    have ne: "escape_dq cs @ dq # rest \<noteq> []" by simp
    show ?thesis
      unfolding e read_literal_plain_char [OF False p ne] ih by simp
  qed
qed

lemma read_literal_name:
  "plain n \<Longrightarrow> sq \<notin> set n \<Longrightarrow> read_literal sq (n @ sq # rest) = Some (n, rest)"
proof (induction n)
  case Nil
  show ?case by (simp add: read_literal_close)
next
  case (Cons c cs)
  then have ih: "read_literal sq (cs @ sq # rest) = Some (cs, rest)"
    by (simp add: plain_def)
  from Cons.prems have p: "c \<noteq> sq" "c \<noteq> bslash" "c \<noteq> newline" "c \<noteq> CHR 0x0D" "c \<noteq> CHR 0x00"
    by (auto simp: plain_def)
  have ne: "cs @ sq # rest \<noteq> []" by simp
  have "read_literal sq (c # (cs @ sq # rest)) = Some (c # cs, rest)"
    unfolding read_literal_plain_char [OF p ne] ih by simp
  then show ?case by simp
qed

lemma escape_dq_no_newline: "newline \<notin> set s \<Longrightarrow> newline \<notin> set (escape_dq s)"
  by (induction s) (auto simp: escape_dq_def newline_def bslash_def dq_def)

lemma split_join_concat:
  "ls \<noteq> [] \<Longrightarrow> split_on newline (join [newline] ls) = concat (map (split_on newline) ls)"
proof (induction "[newline]" ls rule: join.induct)
  case 1
  then show ?case by simp
next
  case (2 x)
  show ?case by simp
next
  case (3 x y ys)
  have "join [newline] (x # y # ys) = x @ newline # join [newline] (y # ys)" by simp
  then have "split_on newline (join [newline] (x # y # ys))
               = split_on newline x @ split_on newline (join [newline] (y # ys))"
    by (simp only: split_on_append)
  with 3 show ?case by simp
qed

lemma split_line: "newline \<notin> set l \<Longrightarrow> split_on newline l = [l]"
  by (rule split_on_absent)

lemma split_two_lines:
  "newline \<notin> set a \<Longrightarrow> newline \<notin> set b \<Longrightarrow> split_on newline (join [newline] [a, b]) = [a, b]"
  by (simp add: split_on_append split_line del: split_on.simps)

lemma field_lines_split:
  assumes "plain (convertToCssSelector (tag e) (attrs e))" and "plain (name e)"
  shows \<open>split_on newline (field_lines e) =
           [''    field_element = container.select_one("''
              @ escape_dq (convertToCssSelector (tag e) (attrs e)) @ ''")'',
            ''    item['' @ [sq] @ name e @ [sq]
              @ ''] = field_element.get_text(strip=True) if field_element else None'']\<close>
proof -
  have a: "newline \<notin> set (escape_dq (convertToCssSelector (tag e) (attrs e)))"
    using assms(1) by (simp add: plain_def escape_dq_no_newline)
  have b: "newline \<notin> set (name e)" using assms(2) by (simp add: plain_def)
  have 1: \<open>newline \<notin> set (''    field_element = container.select_one("''
              @ escape_dq (convertToCssSelector (tag e) (attrs e)) @ ''")'')\<close>
    using a by (simp add: newline_def)
  have 2: \<open>newline \<notin> set (''    item['' @ [sq] @ name e @ [sq]
              @ ''] = field_element.get_text(strip=True) if field_element else None'')\<close>
    using b by (simp add: newline_def sq_def)
  show ?thesis
    unfolding field_lines_def Let_def by (rule split_two_lines [OF 1 2])
qed

lemma fields_split:
  assumes "es \<noteq> []"
  shows "split_on newline (join [newline] (map field_lines es))
           = concat (map (\<lambda>e. split_on newline (field_lines e)) es)"
  using assms by (simp add: split_join_concat comp_def del: split_on.simps)

lemma field_lines_split':
  assumes "plain (convertToCssSelector (tag e) (attrs e))" and "plain (name e)"
  shows "split_on newline (field_lines e) = [select_line e, assign_line e]"
  using field_lines_split [OF assms] by (simp add: select_line_def assign_line_def)

lemma field_part_split:
  assumes "list_all (\<lambda>e. plain (convertToCssSelector (tag e) (attrs e)) \<and> plain (name e)) es"
  shows "split_on newline (join [newline] (map field_lines es)) = field_part es"
proof (cases "es = []")
  case True
  then show ?thesis by (simp add: field_part_def)
next
  case False
  have "concat (map (\<lambda>e. split_on newline (field_lines e)) es)
          = concat (map (\<lambda>e. [select_line e, assign_line e]) es)"
    using assms by (induction es) (simp_all add: field_lines_split' del: split_on.simps)
  with False show ?thesis by (simp add: fields_split field_part_def del: split_on.simps)
qed

lemma plan_plain_fields:
  "plan_plain cont es \<Longrightarrow>
     list_all (\<lambda>e. plain (convertToCssSelector (tag e) (attrs e)) \<and> plain (name e)) es"
  by (induction es) (simp_all add: plan_plain_def)

lemma loop_lines:
  assumes "plan_plain cont es"
  shows "split_on newline (extractionLoop cont es)
           = tl (head_lines cont) @ field_part es @ [''    all_items.append(item)'', []]"
proof -
  have s: "newline \<notin> set (escape_dq (convertToCssSelector (tag cont) (attrs cont)))"
    using assms by (simp add: plan_plain_def plain_def escape_dq_no_newline)
  have f: "split_on newline (join [newline] (map field_lines es)) = field_part es"
    by (rule field_part_split [OF plan_plain_fields [OF assms]])
  show ?thesis
    unfolding extractionLoop_def Let_def head_lines_def
    by (subst split_join_concat)
       (simp_all add: split_on_absent f s [unfolded newline_def] f [unfolded newline_def]
          newline_def dq_def del: split_on.simps join.simps)
qed

lemma script_lines:
  assumes "plan_plain cont es"
  shows "split_on newline (generateContainerBasedScript cont es fmt)
           = head_lines cont @ field_part es @ tail_lines fmt"
proof -
  note l = loop_lines [OF assms, unfolded newline_def]
  show ?thesis
  proof (cases fmt)
    case Csv
    show ?thesis
      unfolding generateContainerBasedScript_def Csv output_format.case
      by (subst split_join_concat)
         (simp_all add: split_on_absent l newline_def dq_def sq_def bslash_def head_lines_def
            tail_lines_def csv_block_def del: split_on.simps join.simps)
  next
    case Json
    show ?thesis
      unfolding generateContainerBasedScript_def Json output_format.case
      by (subst split_join_concat)
         (simp_all add: split_on_absent l newline_def dq_def sq_def bslash_def head_lines_def
            tail_lines_def json_block_def del: split_on.simps join.simps)
  next
    case Print
    show ?thesis
      unfolding generateContainerBasedScript_def Print output_format.case
      by (subst split_join_concat)
         (simp_all add: split_on_absent l newline_def dq_def sq_def bslash_def head_lines_def
            tail_lines_def del: split_on.simps join.simps)
  qed
qed

lemma read_select_line:
  assumes "plain (convertToCssSelector (tag e) (attrs e))"
  shows "strip_prefix ''    '' (select_line e) \<noteq> None"
    and "\<exists>t. strip_prefix ''    '' (select_line e) = Some t
           \<and> read_body_line t = Some (SelectField (convertToCssSelector (tag e) (attrs e)))"
proof -
  let ?s = "convertToCssSelector (tag e) (attrs e)"
  let ?t = \<open>''field_element = container.select_one("'' @ escape_dq ?s @ dq # '')''\<close>
  have a: "select_line e = ''    '' @ ?t" by (simp add: select_line_def dq_def)
  have b: "strip_prefix ''    '' (select_line e) = Some ?t"
    unfolding a by (rule strip_prefix_append)
  have c: \<open>strip_prefix ''field_element = container.select_one("'' ?t = Some (escape_dq ?s @ dq # '')'')\<close>
    by (rule strip_prefix_append)
  have d: "?t \<noteq> ''item = {}''" "?t \<noteq> ''all_items.append(item)''" by simp_all
  have "read_body_line ?t = Some (SelectField ?s)"
    using d by (simp add: read_body_line_def read_literal_selector [OF assms])
  with b show "strip_prefix ''    '' (select_line e) \<noteq> None"
    and "\<exists>t. strip_prefix ''    '' (select_line e) = Some t
           \<and> read_body_line t = Some (SelectField ?s)" by simp_all
qed

lemma read_assign_line:
  assumes "plain (name e)" and "sq \<notin> set (name e)"
  shows "\<exists>t. strip_prefix ''    '' (assign_line e) = Some t
           \<and> read_body_line t = Some (SetField (name e))"
proof -
  let ?r = "''] = field_element.get_text(strip=True) if field_element else None''"
  let ?t = "''item['' @ [sq] @ name e @ sq # ?r"
  have a: "assign_line e = ''    '' @ ?t" by (simp add: assign_line_def)
  have b: "strip_prefix ''    '' (assign_line e) = Some ?t"
    unfolding a by (rule strip_prefix_append)
  have c: "strip_prefix (''item['' @ [sq]) ?t = Some (name e @ sq # ?r)"
    using strip_prefix_append [of "''item['' @ [sq]" "name e @ sq # ?r"] by simp
  have d: "?t \<noteq> ''item = {}''" "?t \<noteq> ''all_items.append(item)''"
    \<open>strip_prefix ''field_element = container.select_one("'' ?t = None\<close> by simp_all
  have "read_body_line ?t = Some (SetField (name e))"
    using d by (simp add: read_body_line_def read_literal_name [OF assms])
  with b show ?thesis by simp
qed

lemma read_body_step:
  assumes "strip_prefix ''    '' l = Some t" and "read_body_line t = Some s" and "l \<noteq> []"
  shows "read_body (l # ls) = (case read_body ls of None \<Rightarrow> None | Some ss \<Rightarrow> Some (s # ss))"
  using assms by simp

lemma select_line_not_empty: "select_line e \<noteq> []" "assign_line e \<noteq> []"
  by (simp_all add: select_line_def assign_line_def)

lemma read_body_fields:
  assumes "list_all (\<lambda>e. plain (convertToCssSelector (tag e) (attrs e))
                     \<and> plain (name e) \<and> sq \<notin> set (name e)) es"
    and "read_body rest = Some ss"
  shows "read_body (concat (map (\<lambda>e. [select_line e, assign_line e]) es) @ rest)
           = Some (field_stmts es @ ss)"
  using assms(1)
proof (induction es)
  case Nil
  show ?case using assms(2) by (simp add: field_stmts_def)
next
  case (Cons e es)
  then have p: "plain (convertToCssSelector (tag e) (attrs e))" "plain (name e)" "sq \<notin> set (name e)"
    and ih: "read_body (concat (map (\<lambda>e. [select_line e, assign_line e]) es) @ rest)
               = Some (field_stmts es @ ss)"
    by simp_all
  obtain t1 where t1: "strip_prefix ''    '' (select_line e) = Some t1"
      "read_body_line t1 = Some (SelectField (convertToCssSelector (tag e) (attrs e)))"
    using read_select_line(2) [OF p(1)] by blast
  obtain t2 where t2: "strip_prefix ''    '' (assign_line e) = Some t2"
      "read_body_line t2 = Some (SetField (name e))"
    using read_assign_line [OF p(2,3)] by blast
  have "read_body (select_line e # assign_line e
           # (concat (map (\<lambda>e. [select_line e, assign_line e]) es) @ rest))
          = Some (SelectField (convertToCssSelector (tag e) (attrs e)) # SetField (name e)
                   # (field_stmts es @ ss))"
    unfolding read_body_step [OF t1 select_line_not_empty(1)]
      read_body_step [OF t2 select_line_not_empty(2)] ih by simp
  then show ?case by (simp add: field_stmts_def)
qed

lemma read_body_loop:
  assumes "plan_plain cont es"
  shows "read_body (''    item = {}'' # field_part es @ [''    all_items.append(item)'', [], []])
           = Some (NewItem # field_stmts es @ [AppendItem])"
proof -
  have a: "read_body [''    all_items.append(item)'', [], []] = Some [AppendItem]"
    by (simp add: read_body_line_def)
  have f: "read_body (field_part es @ [''    all_items.append(item)'', [], []])
             = Some (field_stmts es @ [AppendItem])"
  proof (cases "es = []")
    case True
    then show ?thesis using a by (simp add: field_part_def field_stmts_def del: read_body.simps(2))
         (simp add: read_body_line_def)
  next
    case False
    have "list_all (\<lambda>e. plain (convertToCssSelector (tag e) (attrs e))
                     \<and> plain (name e) \<and> sq \<notin> set (name e)) es"
      using assms by (simp add: plan_plain_def)
    from read_body_fields [OF this a] False show ?thesis by (simp add: field_part_def)
  qed
  have "read_body (''    item = {}'' # (field_part es @ [''    all_items.append(item)'', [], []]))
          = Some (NewItem # field_stmts es @ [AppendItem])"
    using f by (simp add: read_body_line_def)
  then show ?thesis by simp
qed

lemma field_part_in_block: "\<forall>l\<in>set (field_part es). in_block l"
  by (induction es) (auto simp: field_part_def in_block_def select_line_def assign_line_def)

lemma loop_block:
  assumes "\<not> in_block l"
  shows "takeWhile in_block (''    item = {}'' # field_part es @ [''    all_items.append(item)'', [], []] @ l # ls)
           = ''    item = {}'' # field_part es @ [''    all_items.append(item)'', [], []]"
    and "dropWhile in_block (''    item = {}'' # field_part es @ [''    all_items.append(item)'', [], []] @ l # ls)
           = l # ls"
  using assms field_part_in_block [of es]
  by (simp_all add: in_block_def)

lemma read_lines_skip: "skippable l \<Longrightarrow> read_lines (l # ls) = read_lines ls"
  by (simp add: read_lines.simps)

lemma read_lines_select:
  "read_lines (''containers = soup.select(container_selector)'' # ls)
     = (case read_lines ls of None \<Rightarrow> None | Some ss \<Rightarrow> Some (SelectContainers # ss))"
  by (simp add: read_lines.simps(2) skippable_def)

lemma read_lines_init:
  "read_lines (''all_items = []'' # ls)
     = (case read_lines ls of None \<Rightarrow> None | Some ss \<Rightarrow> Some (InitItems # ss))"
  by (simp add: read_lines.simps(2) skippable_def)

lemma read_lines_for:
  "read_lines (''for container in containers:'' # ls)
     = (case read_body (takeWhile in_block ls) of
           None \<Rightarrow> None
         | Some body \<Rightarrow>
             (case read_lines (dropWhile in_block ls) of
                None \<Rightarrow> None
              | Some ss \<Rightarrow> Some (ForContainers body # ss)))"
  by (simp add: read_lines.simps(2) skippable_def)

lemma read_lines_print:
  "read_lines (''for item in all_items:'' # ''    print(item)'' # ls)
     = (case read_lines ls of None \<Rightarrow> None | Some ss \<Rightarrow> Some (PrintItems # ss))"
  by (simp add: read_lines.simps(2) skippable_def has_prefix_def)

lemma read_lines_csv:
  "read_lines (''if all_items:'' # csv_block @ ls)
     = (case read_lines ls of None \<Rightarrow> None | Some ss \<Rightarrow> Some (SaveCsv # ss))"
  by (simp add: read_lines.simps(2) skippable_def has_prefix_def)

lemma json_not_csv: "\<not> has_prefix csv_block (json_block @ ls)"
  by (simp add: has_prefix_def csv_block_def json_block_def)

lemma read_lines_json:
  "read_lines (''if all_items:'' # json_block @ ls)
     = (case read_lines ls of None \<Rightarrow> None | Some ss \<Rightarrow> Some (SaveJson # ss))"
  using json_not_csv [of ls]
  by (simp add: read_lines.simps(2) skippable_def)
     (simp add: has_prefix_def)

lemma read_lines_selector:
  assumes "plain s"
  shows "read_lines ((''container_selector = '' @ [dq] @ escape_dq s @ [dq]) # ls)
     = (case read_lines ls of None \<Rightarrow> None | Some ss \<Rightarrow> Some (SetContainerSelector s # ss))"
proof -
  let ?l = "''container_selector = '' @ [dq] @ escape_dq s @ [dq]"
  have a: "strip_prefix (''container_selector = '' @ [dq]) ?l = Some (escape_dq s @ [dq])"
    using strip_prefix_append [of "''container_selector = '' @ [dq]" "escape_dq s @ [dq]"] by simp
  have b: "read_literal dq (escape_dq s @ [dq]) = Some (s, [])"
    by (rule read_literal_selector [OF assms])
  have c: "\<not> skippable ?l" "?l \<noteq> ''containers = soup.select(container_selector)''"
    "?l \<noteq> ''all_items = []''" "?l \<noteq> ''for container in containers:''"
    "?l \<noteq> ''for item in all_items:''" "?l \<noteq> ''if all_items:''"
    by (simp_all add: skippable_def)
  show ?thesis
    by (subst read_lines.simps) (simp only: c if_False a b option.case prod.case if_True refl)
qed

lemma read_lines_tail:
  "read_lines (drop 3 (tail_lines fmt)) = Some [tail_stmt fmt]"
proof (cases fmt)
  case Csv
  have "read_lines (''# --- Save data to CSV ---'' # ''if all_items:'' # csv_block @ [[]])
          = Some [SaveCsv]"
    by (simp add: read_lines_skip read_lines_csv skippable_def read_lines.simps(1))
  then show ?thesis using Csv by (simp add: tail_lines_def tail_stmt_def)
next
  case Json
  have "read_lines (''# --- Save data to JSON ---'' # ''if all_items:'' # json_block @ [[]])
          = Some [SaveJson]"
    by (simp add: read_lines_skip read_lines_json skippable_def read_lines.simps(1))
  then show ?thesis using Json by (simp add: tail_lines_def tail_stmt_def)
next
  case Print
  have \<open>read_lines [''# --- Print Extracted Data ---'',
               ''print("'' @ [bslash] @ ''n--- Extracted Data ---")'',
               ''for item in all_items:'',
               ''    print(item)'',
               []] = Some [PrintItems]\<close>
    by (simp add: read_lines_skip read_lines_print skippable_def read_lines.simps(1))
  then show ?thesis using Print by (simp add: tail_lines_def tail_stmt_def)
qed

lemma tail_lines_shape:
  "\<exists>l ls. tail_lines fmt = [''    all_items.append(item)'', [], []] @ l # ls \<and> \<not> in_block l
      \<and> drop 3 (tail_lines fmt) = l # ls"
  by (cases fmt) (simp_all add: tail_lines_def in_block_def)

lemma read_lines_intro:
  "read_lines ([] # [] # ''# Find all the container elements'' # ls) = read_lines ls"
  by (simp add: read_lines_skip skippable_def)

lemma read_lines_middle:
  \<open>read_lines (''containers = soup.select(container_selector)''
       # ''print(f"Found {len(containers)} containers.")''
       # [] # ''# --- Extract data from each container ---'' # ''all_items = []'' # ls)
     = (case read_lines ls of None \<Rightarrow> None | Some ss \<Rightarrow> Some (SelectContainers # InitItems # ss))\<close>
  by (simp add: read_lines_select read_lines_init read_lines_skip skippable_def split: option.splits)

lemma read_emitted_lines:
  assumes "plan_plain cont es"
  shows "read_lines (head_lines cont @ field_part es @ tail_lines fmt) = Some (program_stmts cont es fmt)"
proof -
  obtain l ls where t: "tail_lines fmt = [''    all_items.append(item)'', [], []] @ l # ls"
    and nb: "\<not> in_block l" and d: "drop 3 (tail_lines fmt) = l # ls"
    using tail_lines_shape [of fmt] by blast
  have p: "plain (convertToCssSelector (tag cont) (attrs cont))"
    using assms by (simp add: plan_plain_def)
  let ?sl = "''container_selector = '' @ [dq] @ escape_dq (convertToCssSelector (tag cont) (attrs cont)) @ [dq]"
  let ?loop = "''for container in containers:'' # ''    item = {}'' # field_part es
                  @ [''    all_items.append(item)'', [], []] @ l # ls"
  have tl: "read_lines (l # ls) = Some [tail_stmt fmt]"
    using read_lines_tail [of fmt] d by simp
  have body: "read_lines ?loop
                = Some [ForContainers (NewItem # field_stmts es @ [AppendItem]), tail_stmt fmt]"
    unfolding read_lines_for loop_block [OF nb] read_body_loop [OF assms] tl by simp
  have e: \<open>head_lines cont @ field_part es @ tail_lines fmt
          = [] # [] # ''# Find all the container elements'' # ?sl
              # ''containers = soup.select(container_selector)''
              # ''print(f"Found {len(containers)} containers.")''
              # [] # ''# --- Extract data from each container ---'' # ''all_items = []'' # ?loop\<close>
    unfolding t head_lines_def by simp
  show ?thesis
    unfolding e read_lines_intro read_lines_selector [OF p] read_lines_middle body program_stmts_def
    by simp
qed

lemma read_emitted:
  assumes "plan_plain cont es"
  shows "read_program (generateContainerBasedScript cont es fmt) = Some (program_stmts cont es fmt)"
  unfolding read_program_def script_lines [OF assms] by (rule read_emitted_lines [OF assms])

subsection \<open>Running the statements of an emitted program\<close>

lemma exec_body_append:
  "exec_body soup c st (xs @ ys)
     = (case exec_body soup c st xs of Inl err \<Rightarrow> Inl err | Inr st' \<Rightarrow> exec_body soup c st' ys)"
  by (induction xs arbitrary: st) (simp_all split: sum.splits)

text \<open>The fields of one round, when every query returns.\<close>

lemma exec_fields_ok:
  assumes "\<forall>e\<in>set es. \<exists>m. select_one soup c (convertToCssSelector (tag e) (attrs e)) = Inr m"
    and "v_item st = Some it"
  shows "\<exists>fe. exec_body soup c st (field_stmts es)
           = Inr (st\<lparr>v_item := Some (fill_item soup c it es), v_field_element := fe\<rparr>)"
  using assms
proof (induction es arbitrary: st it)
  case Nil
  have "st = st\<lparr>v_item := Some it, v_field_element := v_field_element st\<rparr>"
    using Nil by simp
  then show ?case by (auto simp: field_stmts_def fill_item_def intro: exI [of _ "v_field_element st"])
next
  case (Cons e es)
  let ?sel = "convertToCssSelector (tag e) (attrs e)"
  from Cons.prems obtain m where m: "select_one soup c ?sel = Inr m" by auto
  let ?v = "case m of Some el \<Rightarrow> Some (get_text soup el) | None \<Rightarrow> None"
  let ?st = "st\<lparr>v_field_element := Some m, v_item := Some (AList.update (name e) ?v it)\<rparr>"
  have fv: "field_value soup c e = ?v" using m by (simp add: field_value_def split: option.splits)
  have two: "exec_body soup c st [SelectField ?sel, SetField (name e)] = Inr ?st"
    using m Cons.prems(2) by (simp add: exec_body_stmt_def)
  have rest: "\<forall>e\<in>set es. \<exists>m. select_one soup c (convertToCssSelector (tag e) (attrs e)) = Inr m"
    using Cons.prems(1) by simp
  have it: "v_item ?st = Some (AList.update (name e) ?v it)" by simp
  from Cons.IH [OF rest it] obtain fe where
    fe: "exec_body soup c ?st (field_stmts es)
           = Inr (?st\<lparr>v_item := Some (fill_item soup c (AList.update (name e) ?v it) es),
                     v_field_element := fe\<rparr>)" by blast
  have fs: "field_stmts (e # es) = [SelectField ?sel, SetField (name e)] @ field_stmts es"
    by (simp add: field_stmts_def)
  have fi: "fill_item soup c it (e # es) = fill_item soup c (AList.update (name e) ?v it) es"
    by (simp add: fill_item_def fv)
  show ?case
    unfolding fs exec_body_append two fi using fe by (intro exI [of _ fe]) simp
qed


lemma exec_round_ok:
  assumes "\<forall>e\<in>set es. \<exists>m. select_one soup c (convertToCssSelector (tag e) (attrs e)) = Inr m"
    and "v_all_items st = Some its"
  shows "\<exists>st'. exec_body soup c st (NewItem # field_stmts es @ [AppendItem]) = Inr st'
           \<and> v_all_items st' = Some (its @ [fill_item soup c [] es])
           \<and> v_saved st' = v_saved st"
proof -
  let ?st0 = "st\<lparr>v_item := Some []\<rparr>"
  have "v_item ?st0 = Some []" by simp
  from exec_fields_ok [OF assms(1) this] obtain fe where
    f: "exec_body soup c ?st0 (field_stmts es)
          = Inr (?st0\<lparr>v_item := Some (fill_item soup c [] es), v_field_element := fe\<rparr>)"
    by blast
  have "exec_body soup c st (NewItem # field_stmts es @ [AppendItem])
          = exec_body soup c ?st0 (field_stmts es @ [AppendItem])"
    by (simp add: exec_body_stmt_def)
  also have "\<dots> = Inr (?st0\<lparr>v_item := Some (fill_item soup c [] es), v_field_element := fe,
                          v_all_items := Some (its @ [fill_item soup c [] es])\<rparr>)"
    unfolding exec_body_append f using assms(2) by (simp add: exec_body_stmt_def)
  finally show ?thesis by simp
qed


lemma exec_for_ok:
  assumes "\<forall>c\<in>set cs. \<forall>e\<in>set es.
             \<exists>m. select_one soup c (convertToCssSelector (tag e) (attrs e)) = Inr m"
    and "v_all_items st = Some its"
  shows "\<exists>st'. exec_for soup (NewItem # field_stmts es @ [AppendItem]) st cs = Inr st'
           \<and> v_all_items st' = Some (its @ map (\<lambda>c. fill_item soup c [] es) cs)
           \<and> v_saved st' = v_saved st"
  using assms
proof (induction cs arbitrary: st its)
  case Nil
  then show ?case by simp
next
  case (Cons c cs)
  have a: "\<forall>e\<in>set es. \<exists>m. select_one soup c (convertToCssSelector (tag e) (attrs e)) = Inr m"
    using Cons.prems(1) by simp
  from exec_round_ok [OF a Cons.prems(2)] obtain st1 where
    r: "exec_body soup c st (NewItem # field_stmts es @ [AppendItem]) = Inr st1"
    and i: "v_all_items st1 = Some (its @ [fill_item soup c [] es])"
    and s: "v_saved st1 = v_saved st" by blast
  have b: "\<forall>c\<in>set cs. \<forall>e\<in>set es.
             \<exists>m. select_one soup c (convertToCssSelector (tag e) (attrs e)) = Inr m"
    using Cons.prems(1) by simp
  from Cons.IH [OF b i] obtain st' where
    "exec_for soup (NewItem # field_stmts es @ [AppendItem]) st1 cs = Inr st'"
    "v_all_items st' = Some ((its @ [fill_item soup c [] es]) @ map (\<lambda>c. fill_item soup c [] es) cs)"
    "v_saved st' = v_saved st1" by blast
  with r s show ?case by simp
qed



lemma exec_tail:
  "v_all_items st = Some its \<Longrightarrow>
     exec_stmt soup st (tail_stmt fmt) = Inr (st\<lparr>v_saved := Some (save_structured fmt its)\<rparr>)"
  by (cases fmt) (simp_all add: tail_stmt_def exec_stmt_def)

lemma exec_stmt_simps:
  "exec_stmt soup st (SetContainerSelector sel) = Inr (st\<lparr>v_container_selector := Some sel\<rparr>)"
  "exec_stmt soup st SelectContainers =
     (case v_container_selector st of
        None \<Rightarrow> Inl NameError
      | Some sel \<Rightarrow>
          (case select soup sel of
             Inl err \<Rightarrow> Inl err
           | Inr cs \<Rightarrow> Inr (st\<lparr>v_containers := Some cs\<rparr>)))"
  "exec_stmt soup st InitItems = Inr (st\<lparr>v_all_items := Some []\<rparr>)"
  "exec_stmt soup st (ForContainers body) =
     (case v_containers st of None \<Rightarrow> Inl NameError | Some cs \<Rightarrow> exec_for soup body st cs)"
  by (simp_all add: exec_stmt_def)

lemma exec_program_ok:
  assumes "select soup (convertToCssSelector (tag cont) (attrs cont)) = Inr cs"
    and "\<forall>c\<in>set cs. \<forall>e\<in>set es.
           \<exists>m. select_one soup c (convertToCssSelector (tag e) (attrs e)) = Inr m"
  shows "\<exists>st. exec_stmts soup initial_state (program_stmts cont es fmt) = Inr st
           \<and> v_all_items st = Some (map (\<lambda>c. fill_item soup c [] es) cs)
           \<and> v_saved st = Some (save_structured fmt (map (\<lambda>c. fill_item soup c [] es) cs))"
proof -
  let ?sel = "convertToCssSelector (tag cont) (attrs cont)"
  let ?st3 = "initial_state\<lparr>v_container_selector := Some ?sel, v_containers := Some cs,
                 v_all_items := Some []\<rparr> :: 'a py_state"
  have "v_all_items ?st3 = Some []" by simp
  from exec_for_ok [OF assms(2) this] obtain st4 where
    f: "exec_for soup (NewItem # field_stmts es @ [AppendItem]) ?st3 cs = Inr st4"
    and i: "v_all_items st4 = Some (map (\<lambda>c. fill_item soup c [] es) cs)"
    and s: "v_saved st4 = v_saved ?st3" by auto
  have "exec_stmts soup initial_state (program_stmts cont es fmt)
          = Inr (st4\<lparr>v_saved := Some (save_structured fmt (map (\<lambda>c. fill_item soup c [] es) cs))\<rparr>)"
    using assms(1) f by (simp add: program_stmts_def exec_stmt_simps exec_tail [OF i])
  then show ?thesis using i by simp
qed


lemma exec_program_select_raises:
  assumes "select soup (convertToCssSelector (tag cont) (attrs cont)) = Inl err"
  shows "exec_stmts soup initial_state (program_stmts cont es fmt) = Inl err"
  using assms by (simp add: program_stmts_def exec_stmt_simps)

lemma run_emitted_ok:
  assumes "plan_plain cont es"
    and "select soup (convertToCssSelector (tag cont) (attrs cont)) = Inr cs"
    and "\<forall>c\<in>set cs. \<forall>e\<in>set es.
           \<exists>m. select_one soup c (convertToCssSelector (tag e) (attrs e)) = Inr m"
  shows "run_program soup (generateContainerBasedScript cont es fmt)
           = Some (Inr (Some (map (\<lambda>c. fill_item soup c [] es) cs),
                        Some (save_structured fmt (map (\<lambda>c. fill_item soup c [] es) cs))))"
proof -
  from exec_program_ok [OF assms(2,3), of fmt] obtain st where
    "exec_stmts soup initial_state (program_stmts cont es fmt) = Inr st"
    "v_all_items st = Some (map (\<lambda>c. fill_item soup c [] es) cs)"
    "v_saved st = Some (save_structured fmt (map (\<lambda>c. fill_item soup c [] es) cs))" by blast
  then show ?thesis by (simp add: run_program_def read_emitted [OF assms(1)])
qed


lemma run_emitted_select_raises:
  assumes "plan_plain cont es"
    and "select soup (convertToCssSelector (tag cont) (attrs cont)) = Inl err"
  shows "run_program soup (generateContainerBasedScript cont es fmt) = Some (Inl err)"
  by (simp add: run_program_def read_emitted [OF assms(1)] exec_program_select_raises [OF assms(2)])

subsection \<open>The records and the rows\<close>

lemma csv_cells:
  "distinct (map fst it) \<Longrightarrow>
     map (\<lambda>k. case map_of it k of None \<Rightarrow> Some [] | Some v \<Rightarrow> v) (map fst it) = map snd it"
proof (induction it)
  case Nil
  show ?case by simp
next
  case (Cons p it)
  obtain k v where p: "p = (k, v)" by (cases p)
  from Cons.prems p have k: "k \<notin> fst ` set it" and d: "distinct (map fst it)" by simp_all
  have "map (\<lambda>x. case map_of ((k, v) # it) x of None \<Rightarrow> Some [] | Some v \<Rightarrow> v) (map fst it)
          = map (\<lambda>x. case map_of it x of None \<Rightarrow> Some [] | Some v \<Rightarrow> v) (map fst it)"
    using k by (intro map_cong refl) auto
  with Cons.IH [OF d] p show ?case by simp
qed

lemma save_csv_rows:
  assumes "\<forall>it\<in>set its. map fst it = ks" and "distinct ks" and "its \<noteq> []"
  shows "save_structured Csv its = CsvFile ks (map (map snd) its)"
proof -
  from assms(3) obtain first rest where c: "its = first # rest" by (cases its) auto
  with assms(1) have k: "map fst first = ks" by simp
  have "csv_rows ks its
          = Inr (map (\<lambda>it. map (\<lambda>k. case map_of it k of None \<Rightarrow> Some [] | Some v \<Rightarrow> v) ks) its)"
    by (rule csv_rows_same_keys [OF assms(1)])
  also have "map (\<lambda>it. map (\<lambda>k. case map_of it k of None \<Rightarrow> Some [] | Some v \<Rightarrow> v) ks) its
               = map (map snd) its"
  proof (rule map_cong [OF refl])
    fix it assume "it \<in> set its"
    with assms(1) have e: "map fst it = ks" by blast
    with assms(2) have "distinct (map fst it)" by simp
    from csv_cells [OF this] e
    show "map (\<lambda>k. case map_of it k of None \<Rightarrow> Some [] | Some v \<Rightarrow> v) ks = map snd it" by simp
  qed
  finally show ?thesis using c k by (simp add: save_structured_def)
qed



lemma single_key_item: "map fst it = [k] \<Longrightarrow> map_of it k = Some v \<Longrightarrow> it = [(k, v)]"
  by (cases it) (auto simp: prod_eq_iff)

lemma three_items: "length xs = 3 \<Longrightarrow> xs = [xs ! 0, xs ! 1, xs ! 2]"
  by (cases xs; cases "tl xs"; cases "tl (tl xs)") auto



section \<open>Properties of synthesis under the length limit\<close>

lemma loop_within_Inr: "loop_within maxlen step s ps = Inr r \<Longrightarrow> r = foldl step s ps"
  by (induction ps arbitrary: s) (auto simp: within_def split: if_splits)

lemma loop_within_fits:
  "\<forall>n\<le>length ps. length (foldl step s (take n ps)) \<le> maxlen \<Longrightarrow>
     loop_within maxlen step s ps = Inr (foldl step s ps)"
proof (induction ps arbitrary: s)
  case Nil
  show ?case by simp
next
  case (Cons p ps)
  have one: "length (step s p) \<le> maxlen"
    using Cons.prems [rule_format, of 1] by simp
  have rest: "\<forall>n\<le>length ps. length (foldl step (step s p) (take n ps)) \<le> maxlen"
  proof (intro allI impI)
    fix n assume "n \<le> length ps"
    then have "Suc n \<le> length (p # ps)" by simp
    from Cons.prems [rule_format, OF this] show "length (foldl step (step s p) (take n ps)) \<le> maxlen"
      by simp
  qed
  show ?case using Cons.IH [OF rest] one by (simp add: within_def)
qed

lemma generator_fallback_is_tag:
  "convertToCssSelector_bounded maxlen tg ats = convertToCssSelector tg ats
   \<or> convertToCssSelector_bounded maxlen tg ats = trim tg"
proof (cases "loop_within maxlen css_step (trim tg)
                (filter (\<lambda>p. str_includes p (CHR ''='')) (map trim (split_on (CHR '','') ats)))")
  case (Inl e)
  then show ?thesis by (simp add: convertToCssSelector_bounded_def convertToCssSelector_def)
next
  case (Inr r)
  from loop_within_Inr [OF this] Inr show ?thesis
    by (simp add: convertToCssSelector_bounded_def convertToCssSelector_def)
qed

lemma trim_solid:
  assumes "s \<noteq> []" and "\<not> isWhiteSpace (hd s)" and "\<not> isWhiteSpace (last s)"
  shows "trim s = s"
proof -
  from assms(1,2) have a: "dropWhile isWhiteSpace s = s" by (cases s) simp_all
  from assms(1,3) have "dropWhile isWhiteSpace (rev s) = rev s"
    by (cases "rev s") (simp_all add: last_rev [symmetric] hd_rev)
  with a show ?thesis by (simp add: trim_def)
qed

lemma escape_dq_length: "length s \<le> length (escape_dq s)"
  by (induction s) (auto simp: escape_dq_def)


lemma long_value_parts:
  assumes "0 < n"
  shows "map trim (split_on (CHR '','') (''k='' @ replicate n (CHR ''x'')))
           = [''k='' @ replicate n (CHR ''x'')]"
    and "trim (''k='' @ replicate n (CHR ''x'')) \<noteq> []"
proof -
  let ?a = "''k='' @ replicate n (CHR ''x'')"
  have l: "last ?a = CHR ''x''" using assms by simp
  have t: "trim ?a = ?a"
    by (rule trim_solid) (simp_all only: l, simp_all add: isWhiteSpace_def)
  have "CHR '','' \<notin> set ?a" by auto
  then have "split_on (CHR '','') ?a = [?a]" by (rule split_on_absent)
  with t show "map trim (split_on (CHR '','') ?a) = [?a]" by simp
  from t show "trim ?a \<noteq> []" by simp
qed

lemma long_value_key:
  "indexOf (''k='' @ replicate n (CHR ''x'')) (CHR ''='') = 1"
  "trim (substring (''k='' @ replicate n (CHR ''x'')) 0 1) = ''k''"
proof -
  show "indexOf (''k='' @ replicate n (CHR ''x'')) (CHR ''='') = 1" by simp
  have "substring (''k='' @ replicate n (CHR ''x'')) 0 1 = ''k''"
    by (simp add: substring_def Let_def)
  moreover have "trim ''k'' = ''k''" by (simp add: trim_def isWhiteSpace_def)
  ultimately show "trim (substring (''k='' @ replicate n (CHR ''x'')) 0 1) = ''k''" by simp
qed

lemma long_value_value:
  assumes "0 < n"
  shows "trim (substring_from (''k='' @ replicate n (CHR ''x'')) (1 + 1)) = replicate n (CHR ''x'')"
proof -
  have "substring_from (''k='' @ replicate n (CHR ''x'')) (1 + 1) = replicate n (CHR ''x'')"
    by (simp add: substring_from_def substring_def Let_def)
  moreover have "trim (replicate n (CHR ''x'')) = replicate n (CHR ''x'')"
  proof (rule trim_solid)
    show "replicate n (CHR ''x'') \<noteq> []" using assms by simp
    show "\<not> isWhiteSpace (hd (replicate n (CHR ''x'')))"
      using assms by (simp add: isWhiteSpace_def)
    show "\<not> isWhiteSpace (last (replicate n (CHR ''x'')))"
      using assms by (simp add: isWhiteSpace_def)
  qed
  ultimately show ?thesis by simp
qed

lemma key_k_generic: "toLowerCase ''k'' \<noteq> ''id''" "toLowerCase ''k'' \<noteq> ''class''"
  by (simp_all add: toLowerCase_def)

lemma long_value_filter_length:
  assumes "0 < n"
  shows "n + 7 \<le> length (append_filter idtok ''d'' ''k'' (replicate n (CHR ''x'')))"
proof -
  have "append_filter idtok ''d'' ''k'' (replicate n (CHR ''x''))
          = ''d'' @ ''['' @ ''k'' @ ''='' @ [dq] @ escape_dq (replicate n (CHR ''x'')) @ [dq] @ '']''"
    using assms by (simp add: append_filter_def key_k_generic)
  moreover have "n \<le> length (escape_dq (replicate n (CHR ''x'')))"
    using escape_dq_length [of "replicate n (CHR ''x'')"] by simp
  ultimately show ?thesis by simp
qed

lemma long_value_sel_step:
  assumes "0 < n"
  shows "n + 7 \<le> length (sel_step ''d'' (''k='' @ replicate n (CHR ''x'')))"
proof -
  have "sel_step ''d'' (''k='' @ replicate n (CHR ''x''))
          = append_filter ws_to_hash ''d'' ''k'' (replicate n (CHR ''x''))"
    unfolding sel_step_def Let_def long_value_key long_value_value [OF assms] by simp
  then show ?thesis using long_value_filter_length [OF assms] by simp
qed

lemma long_value_css_step:
  assumes "0 < n"
  shows "n + 7 \<le> length (css_step ''d'' (''k='' @ replicate n (CHR ''x'')))"
proof -
  have "strip_quotes (replicate n (CHR ''x'')) = replicate n (CHR ''x'')"
    using assms by (cases n) (simp_all add: strip_quotes_def startsWith_def dq_def sq_def)
  then have "css_step ''d'' (''k='' @ replicate n (CHR ''x''))
          = append_filter first_token ''d'' ''k'' (replicate n (CHR ''x''))"
    unfolding css_step_def Let_def long_value_key long_value_value [OF assms] by simp
  then show ?thesis using long_value_filter_length [OF assms] by simp
qed

lemma loop_within_overflow:
  "maxlen < length (step s p) \<Longrightarrow> loop_within maxlen step s [p] = Inl RangeError"
  by (simp add: within_def)

lemma trim_d: "trim ''d'' = ''d''"
  by (simp add: trim_def isWhiteSpace_def)

subsection \<open>The selector as the tag followed by the filters, with and without the limit\<close>

lemma add_constraint_text: "add_constraint idtok s kv = s @ filter_text idtok kv"
  by (simp add: filter_text_def add_constraint_def append_filter_def Let_def)

lemma foldl_add_concat:
  "foldl (add_constraint idtok) s kvs = s @ concat (map (filter_text idtok) kvs)"
proof (induction kvs arbitrary: s)
  case Nil
  show ?case by simp
next
  case (Cons kv kvs)
  have "foldl (add_constraint idtok) (add_constraint idtok s kv) kvs
          = add_constraint idtok s kv @ concat (map (filter_text idtok) kvs)"
    by (rule Cons.IH)
  then show ?case by (simp add: add_constraint_text [of idtok s kv])
qed

lemma filter_text_cases:
  assumes "k \<noteq> []" and "v \<noteq> []"
  shows "filter_text idtok (k, v) =
           (if toLowerCase k = ''id'' then ''#'' @ idtok v
            else if toLowerCase k = ''class'' then
              (if join ''.'' (filter (\<lambda>t. t \<noteq> []) (split_ws v)) = [] then []
               else ''.'' @ join ''.'' (filter (\<lambda>t. t \<noteq> []) (split_ws v)))
            else ''['' @ k @ ''='' @ [dq] @ escape_dq v @ [dq] @ '']'')"
  using assms by (simp add: filter_text_def add_constraint_def append_filter_def Let_def)

lemma css_step_grows: "length s \<le> length (css_step s p)"
  by (simp add: css_step_constraint foldl_add_concat)

lemma sel_step_grows: "length s \<le> length (sel_step s p)"
  by (simp add: sel_step_constraint foldl_add_concat)

lemma foldl_grows:
  "(\<And>s p. length s \<le> length (step s p)) \<Longrightarrow> length s \<le> length (foldl step s ps)"
proof (induction ps arbitrary: s)
  case Nil
  show ?case by simp
next
  case (Cons p ps)
  have "length s \<le> length (step s p)" by (rule Cons.prems)
  also have "\<dots> \<le> length (foldl step (step s p) ps)" using Cons.prems by (rule Cons.IH)
  finally show ?case by simp
qed

lemma loop_within_final:
  assumes grow: "\<And>s p. length s \<le> length (step s p)"
    and fit: "length (foldl step s ps) \<le> maxlen"
  shows "loop_within maxlen step s ps = Inr (foldl step s ps)"
proof (rule loop_within_fits, intro allI impI)
  fix n assume "n \<le> length ps"
  have "foldl step s ps = foldl step (foldl step s (take n ps)) (drop n ps)"
    by (metis append_take_drop_id foldl_append)
  then have "length (foldl step s (take n ps)) \<le> length (foldl step s ps)"
    using foldl_grows [of step "foldl step s (take n ps)" "drop n ps", OF grow] by simp
  with fit show "length (foldl step s (take n ps)) \<le> maxlen" by simp
qed

lemma generator_within_limit:
  assumes "length (convertToCssSelector tg ats) \<le> maxlen"
  shows "convertToCssSelector_bounded maxlen tg ats = convertToCssSelector tg ats"
proof (cases "trim tg = [] \<or> trim ats = []")
  case True
  then show ?thesis by (auto simp: convertToCssSelector_bounded_def convertToCssSelector_def)
next
  case False
  let ?ps = "filter (\<lambda>p. str_includes p (CHR ''='')) (map trim (split_on (CHR '','') ats))"
  from False assms have "length (foldl css_step (trim tg) ?ps) \<le> maxlen"
    by (simp add: convertToCssSelector_def)
  then have "loop_within maxlen css_step (trim tg) ?ps = Inr (foldl css_step (trim tg) ?ps)"
    by (intro loop_within_final css_step_grows)
  with False show ?thesis
    by (simp add: convertToCssSelector_bounded_def convertToCssSelector_def)
qed

lemma interactive_within_limit:
  assumes "length (convertToSelector t a) \<le> maxlen"
  shows "convertToSelector_bounded maxlen t a = convertToSelector t a"
proof (cases "trim a = []")
  case True
  then show ?thesis by (simp add: convertToSelector_bounded_def convertToSelector_def)
next
  case False
  let ?ps = "filter (\<lambda>p. p \<noteq> []) (map trim (split_on (CHR '','') a))"
  from False assms have "length (foldl sel_step (trim t) ?ps) \<le> maxlen"
    by (simp add: convertToSelector_def)
  then have "loop_within maxlen sel_step (trim t) ?ps = Inr (foldl sel_step (trim t) ?ps)"
    by (intro loop_within_final sel_step_grows)
  with False show ?thesis
    by (simp add: convertToSelector_bounded_def convertToSelector_def)
qed

lemma interactive_fallback_is_sentinel:
  "convertToSelector_bounded maxlen t a = convertToSelector t a
   \<or> convertToSelector_bounded maxlen t a = ''INVALID_SELECTOR_DUE_TO_ATTR_PARSE_ERROR''"
proof (cases "loop_within maxlen sel_step (trim t)
                (filter (\<lambda>p. p \<noteq> []) (map trim (split_on (CHR '','') a)))")
  case (Inl e)
  then show ?thesis by (simp add: convertToSelector_bounded_def convertToSelector_def)
next
  case (Inr r)
  from loop_within_Inr [OF this] Inr show ?thesis
    by (simp add: convertToSelector_bounded_def convertToSelector_def)
qed

lemma generator_selector_text:
  "trim tg \<noteq> [] \<Longrightarrow>
     convertToCssSelector tg c = trim tg @ concat (map (filter_text first_token) (parse_css c))"
  by (simp add: convertToCssSelector_parse foldl_add_concat)

lemma interactive_selector_text:
  "convertToSelector t c = trim t @ concat (map (filter_text ws_to_hash) (parse_sel c))"
  by (simp add: convertToSelector_parse foldl_add_concat)

section \<open>Claims about selector synthesis\<close>

text \<open>
  Claim C1. For a fixed descriptor the selector built by the interactive test
  (\<open>convertToSelector\<close>) is claimed to equal the selector the emitted program embeds
  (\<open>convertToCssSelector\<close>). For the tag \<^verbatim>\<open>div\<close> and the clause
  \<^verbatim>\<open>class=card, data-id="7"\<close> the generator strips the quotes around the value and
  yields \<^verbatim>\<open>div.card[data-id="7"]\<close>, while the interactive test keeps them and
  escapes them, yielding \<^verbatim>\<open>div.card[data-id="\"7\""]\<close>: the two selectors differ.
\<close>

theorem synthesis_paths_disagree:
  \<open>convertToCssSelector ''div'' ''class=card, data-id="7"'' = ''div.card[data-id="7"]''
   \<and> convertToSelector ''div'' ''class=card, data-id="7"'' = ''div.card[data-id="'' @ [bslash] @ ''"7'' @ [bslash] @ ''""]''
   \<and> convertToSelector ''div'' ''class=card, data-id="7"'' \<noteq> convertToCssSelector ''div'' ''class=card, data-id="7"''\<close>
  by code_simp

text \<open>
  Claim C2. An id constraint is claimed to append \<open>#\<close> and the first white-space
  delimited token of the value in both synthesis functions. The generator does so: its
  id token is the value up to the first white-space character. The interactive test
  replaces every white-space character of the value by \<open>#\<close> instead, so for
  \<^verbatim>\<open>id=a b\<close> it yields \<^verbatim>\<open>div#a#b\<close> where the generator yields \<^verbatim>\<open>div#a\<close>.
\<close>

theorem id_first_token_only_in_generator:
  "(\<forall>v. first_token v = takeWhile (\<lambda>c. \<not> isWhiteSpace c) v)
   \<and> convertToCssSelector ''div'' ''id=a b'' = ''div#a''
   \<and> convertToSelector ''div'' ''id=a b'' = ''div#a#b''"
proof -
  have "convertToCssSelector ''div'' ''id=a b'' = ''div#a''" by code_simp
  moreover have "convertToSelector ''div'' ''id=a b'' = ''div#a#b''" by code_simp
  ultimately show ?thesis using first_token_takeWhile by blast
qed

text \<open>
  Claim C5. A value wrapped in one pair of double or single quotes is claimed to lose
  exactly that pair on both synthesis paths. The generator removes the pair, whatever
  is inside; the interactive test has no such step and keeps the quotes in the value.
  (The clause with single quotes is written with a trailing blank, which trimming
  removes.)
\<close>

theorem quotes_stripped_only_in_generator:
  \<open>(\<forall>body. strip_quotes (dq # body @ [dq]) = body \<and> strip_quotes (sq # body @ [sq]) = body)
   \<and> parse_css ''id="x y"'' = [(''id'', ''x y'')]
   \<and> parse_css ''id='x' '' = [(''id'', ''x'')]
   \<and> parse_sel ''id="x y"'' = [(''id'', ''"x y"'')]
   \<and> parse_sel ''id='x' '' = [(''id'', [sq] @ ''x'' @ [sq])]\<close>
proof -
  have \<open>parse_css ''id="x y"'' = [(''id'', ''x y'')]\<close> by code_simp
  moreover have \<open>parse_css ''id='x' '' = [(''id'', ''x'')]\<close> by code_simp
  moreover have \<open>parse_sel ''id="x y"'' = [(''id'', ''"x y"'')]\<close> by code_simp
  moreover have \<open>parse_sel ''id='x' '' = [(''id'', [sq] @ ''x'' @ [sq])]\<close> by code_simp
  ultimately show ?thesis using strip_quotes_wrapped by blast
qed

text \<open>
  Claim C7. Parsing a clause splits it at commas, ignores the segments without \<open>=\<close>
  and keeps the remaining constraints in input order; synthesis appends one filter per
  constraint in that order; and nothing is raised. Here:
  \<^item> the example \<^verbatim>\<open>a=1, b=2\<close> parses to the two constraints in order, on both paths;
  \<^item> parsing distributes over a comma, so the order of the clause is the order of the
    constraints, and a segment without \<open>=\<close> contributes nothing;
  \<^item> the selector of either synthesis function is the trimmed tag followed by the
    texts of the constraints, concatenated in the order of the parse;
  \<^item> the text of a constraint with non-empty key and value is \<open>#\<close> and the id token
    for the key \<^verbatim>\<open>id\<close>, the dot-joined class tokens after a dot for the key
    \<^verbatim>\<open>class\<close> (nothing when there is no token), and otherwise the bracket filter
    with the escaped value;
  \<^item> for the example both functions give \<^verbatim>\<open>div[a="1"][b="2"]\<close>, and for the
    swapped clause \<^verbatim>\<open>div[b="2"][a="1"]\<close>;
  \<^item> parsing has no operation that can raise. Under the engine's length limit the
    loop of a synthesis function raises only when a selector would exceed the limit,
    and the \<^verbatim>\<open>catch\<close> returns a value then: whenever the selector fits the limit
    the function returns it, and in every case it returns either the selector or its
    \<^verbatim>\<open>catch\<close> value.
\<close>

theorem clause_constraints_in_order:
  \<open>parse_css ''a=1, b=2'' = [(''a'', ''1''), (''b'', ''2'')]
   \<and> parse_sel ''a=1, b=2'' = [(''a'', ''1''), (''b'', ''2'')]
   \<and> (\<forall>c1 c2. parse_css (c1 @ '','' @ c2) = parse_css c1 @ parse_css c2)
   \<and> (\<forall>c1 c2. parse_sel (c1 @ '','' @ c2) = parse_sel c1 @ parse_sel c2)
   \<and> (\<forall>seg. CHR ''='' \<notin> set seg \<longrightarrow> parse_css seg = [] \<and> parse_sel seg = [])
   \<and> (\<forall>tg c. trim tg \<noteq> [] \<longrightarrow>
         convertToCssSelector tg c
           = trim tg @ concat (map (filter_text first_token) (parse_css c)))
   \<and> (\<forall>t c. convertToSelector t c
           = trim t @ concat (map (filter_text ws_to_hash) (parse_sel c)))
   \<and> (\<forall>idtok k v. k \<noteq> [] \<and> v \<noteq> [] \<longrightarrow>
         filter_text idtok (k, v) =
           (if toLowerCase k = ''id'' then ''#'' @ idtok v
            else if toLowerCase k = ''class'' then
              (if join ''.'' (filter (\<lambda>t. t \<noteq> []) (split_ws v)) = [] then []
               else ''.'' @ join ''.'' (filter (\<lambda>t. t \<noteq> []) (split_ws v)))
            else ''['' @ k @ ''='' @ [dq] @ escape_dq v @ [dq] @ '']''))
   \<and> convertToCssSelector ''div'' ''a=1, b=2'' = ''div[a="1"][b="2"]''
   \<and> convertToSelector ''div'' ''a=1, b=2'' = ''div[a="1"][b="2"]''
   \<and> convertToCssSelector ''div'' ''b=2, a=1'' = ''div[b="2"][a="1"]''
   \<and> convertToSelector ''div'' ''b=2, a=1'' = ''div[b="2"][a="1"]''
   \<and> (\<forall>maxlen tg c. length (convertToCssSelector tg c) \<le> maxlen \<longrightarrow>
         convertToCssSelector_bounded maxlen tg c = convertToCssSelector tg c)
   \<and> (\<forall>maxlen t c. length (convertToSelector t c) \<le> maxlen \<longrightarrow>
         convertToSelector_bounded maxlen t c = convertToSelector t c)
   \<and> (\<forall>maxlen tg c. convertToCssSelector_bounded maxlen tg c = convertToCssSelector tg c
         \<or> convertToCssSelector_bounded maxlen tg c = trim tg)
   \<and> (\<forall>maxlen t c. convertToSelector_bounded maxlen t c = convertToSelector t c
         \<or> convertToSelector_bounded maxlen t c = ''INVALID_SELECTOR_DUE_TO_ATTR_PARSE_ERROR'')\<close>
proof -
  have e1: "parse_css ''a=1, b=2'' = [(''a'', ''1''), (''b'', ''2'')]" by code_simp
  have e2: "parse_sel ''a=1, b=2'' = [(''a'', ''1''), (''b'', ''2'')]" by code_simp
  have s1: \<open>convertToCssSelector ''div'' ''a=1, b=2'' = ''div[a="1"][b="2"]''\<close> by code_simp
  have s2: \<open>convertToSelector ''div'' ''a=1, b=2'' = ''div[a="1"][b="2"]''\<close> by code_simp
  have s3: \<open>convertToCssSelector ''div'' ''b=2, a=1'' = ''div[b="2"][a="1"]''\<close> by code_simp
  have s4: \<open>convertToSelector ''div'' ''b=2, a=1'' = ''div[b="2"][a="1"]''\<close> by code_simp
  show ?thesis
    by (intro conjI allI impI e1 e2 s1 s2 s3 s4 parse_css_append parse_sel_append
          generator_selector_text interactive_selector_text
          generator_fallback_is_tag interactive_fallback_is_sentinel)
       (simp_all add: parse_css_no_eq parse_sel_no_eq filter_text_cases
          generator_within_limit interactive_within_limit)
qed

theorem clause_constraints_in_order_witness:
  \<open>CHR ''='' \<notin> set ''note''
   \<and> parse_css (''x=1'' @ '','' @ ''note'') = parse_css ''x=1''
   \<and> parse_sel (''x=1'' @ '','' @ ''note'') = parse_sel ''x=1''
   \<and> trim ''div'' \<noteq> []
   \<and> filter_text first_token (''a'', ''1'') = ''[a="1"]''
   \<and> length (convertToCssSelector ''div'' ''a=1, b=2'') \<le> 20
   \<and> convertToCssSelector_bounded 20 ''div'' ''a=1, b=2'' = ''div[a="1"][b="2"]''
   \<and> convertToSelector_bounded 20 ''div'' ''a=1, b=2'' = ''div[a="1"][b="2"]''
   \<and> ''div[a="1"][b="2"]''
       = trim ''div'' @ concat (map (filter_text first_token) [(''a'', ''1''), (''b'', ''2'')])\<close>
proof -
  note T = clause_constraints_in_order
  note p1 = T [THEN conjunct1]
  note A = T [THEN conjunct2, THEN conjunct2, THEN conjunct1]
  note B = T [THEN conjunct2, THEN conjunct2, THEN conjunct2, THEN conjunct1]
  note Z = T [THEN conjunct2, THEN conjunct2, THEN conjunct2, THEN conjunct2, THEN conjunct1]
  note G = T [THEN conjunct2, THEN conjunct2, THEN conjunct2, THEN conjunct2, THEN conjunct2, THEN conjunct1]
  note F = T [THEN conjunct2, THEN conjunct2, THEN conjunct2, THEN conjunct2, THEN conjunct2, THEN conjunct2, THEN conjunct2, THEN conjunct1]
  note s1 = T [THEN conjunct2, THEN conjunct2, THEN conjunct2, THEN conjunct2, THEN conjunct2, THEN conjunct2, THEN conjunct2, THEN conjunct2, THEN conjunct1]
  note s2 = T [THEN conjunct2, THEN conjunct2, THEN conjunct2, THEN conjunct2, THEN conjunct2, THEN conjunct2, THEN conjunct2, THEN conjunct2, THEN conjunct2, THEN conjunct1]
  note W1 = T [THEN conjunct2, THEN conjunct2, THEN conjunct2, THEN conjunct2, THEN conjunct2, THEN conjunct2, THEN conjunct2, THEN conjunct2, THEN conjunct2, THEN conjunct2, THEN conjunct2, THEN conjunct2, THEN conjunct1]
  note W2 = T [THEN conjunct2, THEN conjunct2, THEN conjunct2, THEN conjunct2, THEN conjunct2, THEN conjunct2, THEN conjunct2, THEN conjunct2, THEN conjunct2, THEN conjunct2, THEN conjunct2, THEN conjunct2, THEN conjunct2, THEN conjunct1]
  have n: "CHR ''='' \<notin> set ''note''" by simp
  have t: "trim ''div'' \<noteq> []" by code_simp
  have lc: "toLowerCase ''a'' \<noteq> ''id''" "toLowerCase ''a'' \<noteq> ''class''"
    by (simp_all add: toLowerCase_def)
  have l1: "length (convertToCssSelector ''div'' ''a=1, b=2'') \<le> 20" unfolding s1 by simp
  have l2: "length (convertToSelector ''div'' ''a=1, b=2'') \<le> 20" unfolding s2 by simp
  note b1 = W1 [rule_format, OF l1]
  note b2 = W2 [rule_format, OF l2]
  note z = Z [rule_format, OF n]
  note a1 = A [rule_format, of "''x=1''" "''note''"]
  note a2 = B [rule_format, of "''x=1''" "''note''"]
  have f: \<open>filter_text first_token (''a'', ''1'') = ''[a="1"]''\<close>
    using F [rule_format, of "''a''" "''1''" first_token] lc by (simp add: escape_dq_def dq_def)
  have c: \<open>''div[a="1"][b="2"]''
          = trim ''div'' @ concat (map (filter_text first_token) [(''a'', ''1''), (''b'', ''2'')])\<close>
    using G [rule_format, OF t, of "''a=1, b=2''"] unfolding s1 p1 .
  show ?thesis
    using n t f l1 c b1 [unfolded s1] b2 [unfolded s2] a1 a2 z by simp
qed

section \<open>Claims about the interactive test\<close>

text \<open>
  Claim C3. In structured mode, with a non-empty container tag and at least one
  container found, the test of an extractor stores under the extractor's id a result
  whose count is the number of containers that have a match for the field selector
  below them (not the number of matches), whose preview reads
  \<^verbatim>\<open>N of M containers have a match.\<close> and whose error flag is set exactly when
  that number is zero. The statement is for tests that reach the query (the extractor's
  tag is not blank and a document is loaded) and in which the document accepts the field
  selector in every container; a selector the document refuses is the separate
  invalid-selector case of the \<^verbatim>\<open>catch\<close> branch. The example that follows has three
  containers, two of them with a match: the count is 2 and the preview is
  \<^verbatim>\<open>2 of 3 containers have a match.\<close>
\<close>

theorem structured_field_test_counts_containers:
  assumes "trim tg \<noteq> []"
    and "scrapingMode st = Structured"
    and "tag (container st) \<noteq> []"
    and "querySelectorAll doc (convertToSelector (tag (container st)) (attrs (container st))) = Inr cs"
    and "cs \<noteq> []"
    and "\<forall>c\<in>set cs. querySelector doc c (convertToSelector tg at) \<noteq> Inl SyntaxError"
  shows "testResults (snd (handleTest (Some doc) Extractor i tg at st)) i =
           Some \<lparr>count = length (filter (contains_match doc (convertToSelector tg at)) cs),
                 preview = show_nat (length (filter (contains_match doc (convertToSelector tg at)) cs))
                            @ '' of '' @ show_nat (length cs) @ '' containers have a match.'',
                 error = (length (filter (contains_match doc (convertToSelector tg at)) cs) = 0)\<rparr>"
proof -
  have m: "matchesInContainers doc (convertToSelector tg at) cs
       = (map (\<lambda>c. ElementQuery c (convertToSelector tg at)) cs,
          Inr (filter (contains_match doc (convertToSelector tg at)) cs))"
    using assms(6) by (rule matchesInContainers_total)
  show ?thesis
    using assms(1-5) by (simp add: handleTest_def test_body_def Let_def m)
qed

theorem structured_field_test_counts_containers_witness:
  "testResults (snd (handleTest (Some scenario_doc) Extractor 7 ''span'' ''class=t'' scenario_state)) 7
     = Some \<lparr>count = 2, preview = ''2 of 3 containers have a match.'', error = False\<rparr>"
proof -
  have sel: "convertToSelector ''span'' ''class=t'' = ''span.t''" by code_simp
  have csel: "convertToSelector ''div'' ''class=card'' = ''div.card''" by code_simp
  have t: "trim ''span'' \<noteq> []" by code_simp
  have f: "filter (contains_match scenario_doc ''span.t'') [1, 2, 3] = [1, 3]"
    by (simp add: contains_match_def scenario_doc_def)
  have "testResults (snd (handleTest (Some scenario_doc) Extractor 7 ''span'' ''class=t'' scenario_state)) 7
     = Some \<lparr>count = length (filter (contains_match scenario_doc (convertToSelector ''span'' ''class=t'')) [1, 2, 3]),
             preview = show_nat (length (filter (contains_match scenario_doc (convertToSelector ''span'' ''class=t'')) [1, 2, 3]))
                        @ '' of '' @ show_nat (length [1, 2, 3 :: nat]) @ '' containers have a match.'',
             error = (length (filter (contains_match scenario_doc (convertToSelector ''span'' ''class=t'')) [1, 2, 3]) = 0)\<rparr>"
    by (rule structured_field_test_counts_containers [OF t])
       (simp_all add: scenario_state_def scenario_doc_def csel sel)
  moreover have "show_nat (Suc (Suc 0)) = ''2''" and "show_nat (Suc (Suc (Suc 0))) = ''3''"
    by code_simp+
  ultimately show ?thesis unfolding sel f by simp
qed

text \<open>
  Claim C8. When the tag is empty after trimming, or no document is loaded, the test
  issues no query at all (the list of issued queries is empty, whatever the document
  would answer) and stores the result with count 0, the text
  \<^verbatim>\<open>HTML Tag is empty.\<close> and the error flag set: under the extractor's id for an
  extractor, and as the container result (with \<open>isContainerSet\<close> cleared) for the
  container.
\<close>

theorem empty_tag_never_queries:
  assumes "trim tg = [] \<or> iframeDoc = None"
  shows "handleTest iframeDoc ty i tg at st = ([], store_failure ty i empty_tag_result st)
     \<and> empty_tag_result = \<lparr>count = 0, preview = ''HTML Tag is empty.'', error = True\<rparr>
     \<and> (ty = Extractor \<longrightarrow>
          testResults (snd (handleTest iframeDoc ty i tg at st)) i = Some empty_tag_result)
     \<and> (ty = Container \<longrightarrow>
          containerTestResult (snd (handleTest iframeDoc ty i tg at st)) = Some empty_tag_result
          \<and> \<not> isContainerSet (snd (handleTest iframeDoc ty i tg at st)))"
proof -
  have h: "handleTest iframeDoc ty i tg at st = ([], store_failure ty i empty_tag_result st)"
  proof (cases iframeDoc)
    case None
    then show ?thesis by (simp add: handleTest_def)
  next
    case (Some doc)
    with assms have "trim tg = []" by simp
    with Some show ?thesis by (simp add: handleTest_def)
  qed
  have e: "empty_tag_result = \<lparr>count = 0, preview = ''HTML Tag is empty.'', error = True\<rparr>"
    by (simp add: empty_tag_result_def)
  have x: "ty = Extractor \<longrightarrow>
          testResults (snd (handleTest iframeDoc ty i tg at st)) i = Some empty_tag_result"
    unfolding h by (simp add: store_failure_def)
  have c: "ty = Container \<longrightarrow>
          containerTestResult (snd (handleTest iframeDoc ty i tg at st)) = Some empty_tag_result
          \<and> \<not> isContainerSet (snd (handleTest iframeDoc ty i tg at st))"
    unfolding h by (simp add: store_failure_def)
  from h e x c show ?thesis by blast
qed

theorem empty_tag_never_queries_witness:
  "trim ''  '' = []
   \<and> handleTest (Some scenario_doc) Extractor 7 ''  '' ''class=t'' scenario_state
       = ([], store_failure Extractor 7 empty_tag_result scenario_state)
   \<and> handleTest (None :: nat document option) Container 0 ''div'' ''class=card'' scenario_state
       = ([], store_failure Container 0 empty_tag_result scenario_state)
   \<and> containerTestResult
        (snd (handleTest (None :: nat document option) Container 0 ''div'' ''class=card''
               scenario_state))
       = Some empty_tag_result
   \<and> empty_tag_result = \<lparr>count = 0, preview = ''HTML Tag is empty.'', error = True\<rparr>"
proof -
  have t: "trim ''  '' = []" by code_simp
  then have a: "trim ''  '' = [] \<or> Some scenario_doc = None" by simp
  have b: "trim ''div'' = [] \<or> (None :: nat document option) = None" by simp
  from t empty_tag_never_queries [OF a, of Extractor 7 "''class=t''" scenario_state]
    empty_tag_never_queries [OF b, of Container 0 "''class=card''" scenario_state]
  show ?thesis by blast
qed

section \<open>Claims about the emitted text\<close>

text \<open>
  Claim C4. The file name and the extractor names embedded in the program are claimed
  to have their quote characters escaped against the quoting of the emitted language.
  The generator attempts this for the file name by putting a backslash in front of
  every double quote, and leaves a backslash of the name as it is. For the uploaded file
  \<^verbatim>\<open>a\"b.html\<close> the emitted line is \<^verbatim>\<open>file_name = "a\\"b.html"\<close>: the two
  backslashes form one escape, the quote after them is not escaped and ends the
  literal, and the body fails the lexical test of a double-quoted literal.
\<close>

theorem file_name_backslash_defeats_escaping:
  "\<not> incomplete backslash_params
   \<and> fileName backslash_params = ''a'' @ [bslash, dq] @ ''b.html''
   \<and> escape_dq (fileName backslash_params) = ''a'' @ [bslash, bslash, dq] @ ''b.html''
   \<and> sublist (''file_name = '' @ [dq] @ ''a'' @ [bslash, bslash, dq] @ ''b.html'' @ [dq])
         (generateBeautifulSoupCode backslash_params)
   \<and> \<not> literal_body_ok dq (escape_dq (fileName backslash_params))"
proof -
  have c: "\<not> incomplete backslash_params" by (simp add: incomplete_def backslash_params_def)
  have f: "fileName backslash_params = ''a'' @ [bslash, dq] @ ''b.html''"
    by (simp add: backslash_params_def)
  have e: "escape_dq (fileName backslash_params) = ''a'' @ [bslash, bslash, dq] @ ''b.html''"
    by (simp add: f escape_dq_def dq_def bslash_def)
  have s: "sublist (''file_name = '' @ [dq] @ ''a'' @ [bslash, bslash, dq] @ ''b.html'' @ [dq])
         (generateBeautifulSoupCode backslash_params)"
    using file_name_line_embedded [OF c] unfolding e by (simp add: dq_def)
  have l: "\<not> literal_body_ok dq (escape_dq (fileName backslash_params))"
    unfolding e by (simp add: dq_def bslash_def newline_def)
  from c f e s l show ?thesis by blast
qed

section \<open>Claims about what the emitted program computes\<close>

text \<open>
  Claim C9. In the program that \<open>generateContainerBasedScript\<close> emits, every record is
  a dictionary keyed by extractor name. The emitted text is read and run as Python: for
  a plan whose selectors and names Python reads back as written, and a document in
  which the container selector matches \<open>containers\<close> and no field query raises, the
  program ends with one record per container; the keys of every record are the
  extractor names in order of first occurrence, without repetition, so a record has as
  many entries as there are distinct names, not as there are extractors; under a name
  the record holds what the last extractor of that name found, the text of the match or
  \<open>None\<close> (a later extractor overwrites an earlier one of the same name); and when the
  CSV program finds a container at all, it writes these keys as the header and, for
  every record, the values under them: one column per distinct name.
\<close>

theorem records_keyed_by_name:
  assumes "plan_plain cont es"
    and "select soup (convertToCssSelector (tag cont) (attrs cont)) = Inr containers"
    and "\<forall>c\<in>set containers. \<forall>e\<in>set es.
           \<exists>m. select_one soup c (convertToCssSelector (tag e) (attrs e)) = Inr m"
  shows "\<exists>items.
           run_program soup (generateContainerBasedScript cont es fmt)
             = Some (Inr (Some items, Some (save_structured fmt items)))
           \<and> length items = length containers
           \<and> (\<forall>it\<in>set items.
                 map fst it = keys_after [] (map name es)
                 \<and> distinct (map fst it)
                 \<and> set (map fst it) = name ` set es
                 \<and> length it = card (name ` set es))
           \<and> (\<forall>i<length containers. \<forall>es1 e es2.
                 es = es1 @ e # es2 \<and> name e \<notin> name ` set es2
                 \<longrightarrow> map_of (items ! i) (name e)
                       = Some (case select_one soup (containers ! i)
                                      (convertToCssSelector (tag e) (attrs e)) of
                                 Inr (Some el) \<Rightarrow> Some (get_text soup el)
                               | _ \<Rightarrow> None))
           \<and> (containers \<noteq> [] \<longrightarrow>
                 run_program soup (generateContainerBasedScript cont es Csv)
                   = Some (Inr (Some items,
                        Some (CsvFile (keys_after [] (map name es)) (map (map snd) items))))
                 \<and> length (keys_after [] (map name es)) = card (name ` set es))"
proof -
  let ?items = "map (\<lambda>c. fill_item soup c [] es) containers"
  let ?ks = "keys_after [] (map name es)"
  have r: "run_program soup (generateContainerBasedScript cont es fmt)
             = Some (Inr (Some ?items, Some (save_structured fmt ?items)))"
    by (rule run_emitted_ok [OF assms])
  have n: "length ?items = length containers" by simp
  have k: "\<forall>it\<in>set ?items. map fst it = ?ks"
    by (rule filled_items_keys)
  have d: "distinct ?ks" by (simp add: keys_after_distinct)
  have s: "set ?ks = name ` set es" by (simp add: keys_after_set)
  have l: "length ?ks = card (name ` set es)"
    using keys_after_length [of "map name es"] by simp
  have a: "\<forall>it\<in>set ?items.
             map fst it = ?ks \<and> distinct (map fst it) \<and> set (map fst it) = name ` set es
             \<and> length it = card (name ` set es)"
  proof
    fix it assume "it \<in> set ?items"
    with k have e: "map fst it = ?ks" by blast
    then have "length it = length ?ks" by (metis length_map)
    with e d s l show "map fst it = ?ks \<and> distinct (map fst it) \<and> set (map fst it) = name ` set es
             \<and> length it = card (name ` set es)" by simp
  qed
  have o: "\<forall>i<length containers. \<forall>es1 e es2.
             es = es1 @ e # es2 \<and> name e \<notin> name ` set es2
             \<longrightarrow> map_of (?items ! i) (name e)
                   = Some (case select_one soup (containers ! i)
                                  (convertToCssSelector (tag e) (attrs e)) of
                             Inr (Some el) \<Rightarrow> Some (get_text soup el)
                           | _ \<Rightarrow> None)"
  proof (intro allI impI)
    fix i es1 e es2
    assume i: "i < length containers"
      and h: "es = es1 @ e # es2 \<and> name e \<notin> name ` set es2"
    from h have h1: "es = es1 @ e # es2" and h2: "name e \<notin> name ` set es2" by blast+
    have "?items ! i = fill_item soup (containers ! i) [] es"
      using i by (rule nth_map)
    then have "map_of (?items ! i) (name e) = Some (field_value soup (containers ! i) e)"
      unfolding h1 using fill_item_last_wins [OF h2] by (simp only:)
    then show "map_of (?items ! i) (name e)
                 = Some (case select_one soup (containers ! i)
                                (convertToCssSelector (tag e) (attrs e)) of
                           Inr (Some el) \<Rightarrow> Some (get_text soup el)
                         | _ \<Rightarrow> None)"
      by (simp only: field_value_def)
  qed
  have c: "containers \<noteq> [] \<longrightarrow>
             run_program soup (generateContainerBasedScript cont es Csv)
               = Some (Inr (Some ?items, Some (CsvFile ?ks (map (map snd) ?items))))
             \<and> length ?ks = card (name ` set es)"
  proof
    assume "containers \<noteq> []"
    then have "?items \<noteq> []" by simp
    from save_csv_rows [OF k d this] run_emitted_ok [OF assms, of Csv] l
    show "run_program soup (generateContainerBasedScript cont es Csv)
               = Some (Inr (Some ?items, Some (CsvFile ?ks (map (map snd) ?items))))
             \<and> length ?ks = card (name ` set es)"
      by (simp only: simp_thms)
  qed
  show ?thesis
    by (rule exI [of _ ?items]) (intro conjI r n a o c)
qed

theorem records_keyed_by_name_witness:
  "plan_plain (container_p scenario_params) shared_name_extractors
   \<and> select scenario_soup ''div.card'' = Inr [1, 2, 3]
   \<and> run_program scenario_soup
        (generateContainerBasedScript (container_p scenario_params) shared_name_extractors Csv)
       = Some (Inr (Some [[(''t'', Some ''B'')], [(''t'', None)], [(''t'', None)]],
                    Some (CsvFile [''t''] [[Some ''B''], [None], [None]])))"
proof -
  let ?cont = "container_p scenario_params"
  let ?es = "shared_name_extractors"
  let ?e1 = "\<lparr>tag = ''span'', attrs = ''class=t'', ident = 1, name = ''t''\<rparr>"
  let ?e2 = "\<lparr>tag = ''b'', attrs = [], ident = 2, name = ''t''\<rparr>"
  let ?cs = "[1, 2, 3 :: nat]"
  have s: "select scenario_soup (convertToCssSelector (tag ?cont) (attrs ?cont)) = Inr ?cs"
    by (simp add: scenario_params_def scenario_selectors scenario_soup_def)
  have q: "\<forall>c\<in>set ?cs. \<forall>e\<in>set ?es.
             \<exists>m. select_one scenario_soup c (convertToCssSelector (tag e) (attrs e)) = Inr m"
    by (simp add: shared_name_extractors_def scenario_selectors scenario_soup_def)
  have ks: "keys_after [] (map name ?es) = [''t'']"
    by (simp add: keys_after_def shared_name_extractors_def)
  have sp: "?es = [?e1] @ ?e2 # [] \<and> name ?e2 \<notin> name ` set []"
    by (simp add: shared_name_extractors_def)
  from records_keyed_by_name [OF scenario_plain(2) s q, of Csv]
  obtain items where
    l: "length items = length ?cs"
    and a: "\<forall>it\<in>set items. map fst it = keys_after [] (map name ?es)
               \<and> distinct (map fst it) \<and> set (map fst it) = name ` set ?es
               \<and> length it = card (name ` set ?es)"
    and o: "\<forall>i<length ?cs. \<forall>es1 e es2.
               ?es = es1 @ e # es2 \<and> name e \<notin> name ` set es2
               \<longrightarrow> map_of (items ! i) (name e)
                     = Some (case select_one scenario_soup (?cs ! i)
                                    (convertToCssSelector (tag e) (attrs e)) of
                               Inr (Some el) \<Rightarrow> Some (get_text scenario_soup el)
                             | _ \<Rightarrow> None)"
    and c: "?cs \<noteq> [] \<longrightarrow>
               run_program scenario_soup (generateContainerBasedScript ?cont ?es Csv)
                 = Some (Inr (Some items,
                      Some (CsvFile (keys_after [] (map name ?es)) (map (map snd) items))))
               \<and> length (keys_after [] (map name ?es)) = card (name ` set ?es)"
    by blast
  have v: "map_of (items ! i) ''t''
             = Some (case select_one scenario_soup (?cs ! i) ''b'' of
                       Inr (Some el) \<Rightarrow> Some (get_text scenario_soup el)
                     | _ \<Rightarrow> None)" if "i < 3" for i
  proof -
    from that have "i < length ?cs" by simp
    with o sp have "map_of (items ! i) (name ?e2)
             = Some (case select_one scenario_soup (?cs ! i)
                            (convertToCssSelector (tag ?e2) (attrs ?e2)) of
                       Inr (Some el) \<Rightarrow> Some (get_text scenario_soup el)
                     | _ \<Rightarrow> None)" by blast
    then show ?thesis by (simp add: scenario_selectors)
  qed
  have f: "map fst (items ! i) = [''t'']" if "i < 3" for i
  proof -
    from that l have "items ! i \<in> set items" by simp
    with a ks show ?thesis by simp
  qed
  have i0: "items ! 0 = [(''t'', Some ''B'')]"
    by (rule single_key_item [OF f]) (simp_all add: v scenario_soup_def)
  have i1: "items ! 1 = [(''t'', None)]"
    by (rule single_key_item [OF f]) (simp_all add: v scenario_soup_def)
  have i2: "items ! 2 = [(''t'', None)]"
    by (rule single_key_item [OF f]) (simp_all add: v scenario_soup_def)
  have "length items = 3" using l by simp
  from three_items [OF this] have it: "items = [[(''t'', Some ''B'')], [(''t'', None)], [(''t'', None)]]"
    unfolding i0 i1 i2 .
  from c have "run_program scenario_soup (generateContainerBasedScript ?cont ?es Csv)
                 = Some (Inr (Some items,
                      Some (CsvFile (keys_after [] (map name ?es)) (map (map snd) items))))"
    by simp
  then have "run_program scenario_soup (generateContainerBasedScript ?cont ?es Csv)
       = Some (Inr (Some [[(''t'', Some ''B'')], [(''t'', None)], [(''t'', None)]],
                    Some (CsvFile [''t''] [[Some ''B''], [None], [None]])))"
    unfolding it ks by simp
  moreover have "select scenario_soup ''div.card'' = Inr [1, 2, 3]" by (simp add: scenario_soup_def)
  ultimately show ?thesis using scenario_plain(2) by blast
qed




section \<open>Claim about the failure fallback\<close>

text \<open>
  Claim C6. Both synthesis functions are claimed to return the bare trimmed tag name
  when processing the clause fails, and no other sentinel. Neither function raises: the
  \<^verbatim>\<open>catch\<close> returns a value. The generator returns the trimmed tag, as claimed:
  its result is always either the selector or the trimmed tag. The interactive function
  returns the fixed text \<^verbatim>\<open>INVALID_SELECTOR_DUE_TO_ATTR_PARSE_ERROR\<close> instead. For
  every length limit of at least 3 there is an argument within the limit on which the
  loop raises: the tag \<^verbatim>\<open>d\<close> and the clause \<^verbatim>\<open>k=x...x\<close> of exactly the
  maximal length, whose attribute filter cannot be built. There the generator answers
  \<^verbatim>\<open>d\<close> and the interactive function answers the sentinel.
\<close>

theorem fallback_differs_between_paths:
  assumes "3 \<le> maxlen"
  shows "length (''k='' @ replicate (maxlen - 2) (CHR ''x'')) \<le> maxlen
     \<and> convertToSelector_bounded maxlen ''d'' (''k='' @ replicate (maxlen - 2) (CHR ''x''))
         = ''INVALID_SELECTOR_DUE_TO_ATTR_PARSE_ERROR''
     \<and> convertToCssSelector_bounded maxlen ''d'' (''k='' @ replicate (maxlen - 2) (CHR ''x''))
         = trim ''d''
     \<and> ''INVALID_SELECTOR_DUE_TO_ATTR_PARSE_ERROR'' \<noteq> trim ''d''
     \<and> (\<forall>tg ats. convertToCssSelector_bounded maxlen tg ats = convertToCssSelector tg ats
                   \<or> convertToCssSelector_bounded maxlen tg ats = trim tg)"
proof -
  let ?n = "maxlen - 2"
  let ?a = "''k='' @ replicate ?n (CHR ''x'')"
  from assms have n: "0 < ?n" by simp
  have len: "length ?a \<le> maxlen" using assms by simp
  have eq: "str_includes ?a (CHR ''='')" by (simp add: str_includes_def)
  have ne: "?a \<noteq> []" by simp
  have s: "maxlen < length (sel_step ''d'' ?a)" using long_value_sel_step [OF n] assms by simp
  have c: "maxlen < length (css_step ''d'' ?a)" using long_value_css_step [OF n] assms by simp
  have 1: "convertToSelector_bounded maxlen ''d'' ?a = ''INVALID_SELECTOR_DUE_TO_ATTR_PARSE_ERROR''"
    unfolding convertToSelector_bounded_def long_value_parts(1) [OF n] trim_d
    using long_value_parts(2) [OF n] ne loop_within_overflow [of maxlen sel_step "''d''" ?a, OF s] by simp
  have 2: "convertToCssSelector_bounded maxlen ''d'' ?a = trim ''d''"
    unfolding convertToCssSelector_bounded_def long_value_parts(1) [OF n] trim_d
    using long_value_parts(2) [OF n] eq loop_within_overflow [of maxlen css_step "''d''" ?a, OF c] by simp
  have 3: "''INVALID_SELECTOR_DUE_TO_ATTR_PARSE_ERROR'' \<noteq> trim ''d''" by (simp add: trim_d)
  from len 1 2 3 generator_fallback_is_tag show ?thesis by blast
qed

theorem fallback_differs_between_paths_witness:
  "(3::nat) \<le> 8
   \<and> convertToSelector_bounded 8 ''d'' ''k=xxxxxx'' = ''INVALID_SELECTOR_DUE_TO_ATTR_PARSE_ERROR''
   \<and> convertToCssSelector_bounded 8 ''d'' ''k=xxxxxx'' = ''d''"
proof -
  have h: "(3::nat) \<le> 8" by simp
  have r: "''k='' @ replicate (8 - 2) (CHR ''x'') = ''k=xxxxxx''" by code_simp
  from fallback_differs_between_paths [OF h] show ?thesis
    unfolding r by (simp add: trim_d)
qed

end
